theory Spec2Isabelle
  imports Complex_Main
begin

text \<open>
  A model of the transcript-driven replay of the Compare scenario: the loader of the
  transcript, the compiler of its rows into steps, the loop that observes the page and
  takes one rule per tick, the run around it, and the semantic judge. Collaborators
  outside the repository (the browser page, pandas, the embedding service, the summary
  agent) are parameters that say what each call returns.
\<close>

section \<open>Text helpers\<close>

text \<open>
  Python \<open>str\<close> values are modelled as \<^typ>\<open>string\<close>. The model covers ASCII text:
  a byte outside ASCII is a symbol without case that is neither whitespace nor a word
  character (true of punctuation such as the en dash, in its UTF-8 bytes).
\<close>

definition upper_lower_table :: "(char \<times> char) list" where
  "upper_lower_table = zip ''ABCDEFGHIJKLMNOPQRSTUVWXYZ'' ''abcdefghijklmnopqrstuvwxyz''"

text \<open>
  \<open>str.lower()\<close> and the case folding of \<open>re.I\<close>, one character at a time: A to Z.
  Letters outside ASCII, which Python also folds, are left as they are.
\<close>

definition lower_char :: "char \<Rightarrow> char" where
  "lower_char c = (case map_of upper_lower_table c of Some d \<Rightarrow> d | None \<Rightarrow> c)"

definition lower :: "string \<Rightarrow> string" where
  "lower s = map lower_char s"

text \<open>
  \<open>str.isspace()\<close> on ASCII: tab, LF, VT, FF, CR, FS, GS, RS, US and space. The Unicode
  whitespace outside ASCII that \<open>str.strip()\<close> and \<open>\s\<close> also take (U+0085, U+00A0 and
  others) is not covered.
\<close>

definition is_space :: "char \<Rightarrow> bool" where
  "is_space c = (c \<in> set [CHR 0x09, CHR 0x0A, CHR 0x0B, CHR 0x0C, CHR 0x0D,
                            CHR 0x1C, CHR 0x1D, CHR 0x1E, CHR 0x1F, CHR 0x20])"

text \<open>
  The regular expression class \<open>\w\<close> on ASCII: letters, digits and the underscore. The
  letters and digits outside ASCII that \<open>\w\<close> and \<open>\b\<close> also count are not covered.
\<close>

definition is_word_char :: "char \<Rightarrow> bool" where
  "is_word_char c =
     (c \<in> set (''ABCDEFGHIJKLMNOPQRSTUVWXYZ'' @ ''abcdefghijklmnopqrstuvwxyz'' @ ''0123456789_''))"

text \<open>\<open>str.strip()\<close>: leading and trailing whitespace removed.\<close>

definition lstrip :: "string \<Rightarrow> string" where
  "lstrip s = dropWhile is_space s"

definition rstrip :: "string \<Rightarrow> string" where
  "rstrip s = rev (dropWhile is_space (rev s))"

definition strip :: "string \<Rightarrow> string" where
  "strip s = rstrip (lstrip s)"

text \<open>\<open>s.startswith(p)\<close> and the substring test \<open>sub in s\<close>.\<close>

fun startswith :: "string \<Rightarrow> string \<Rightarrow> bool" where
  "startswith s [] = True"
| "startswith [] (p # ps) = False"
| "startswith (c # s) (p # ps) = (c = p \<and> startswith s ps)"

fun py_in :: "string \<Rightarrow> string \<Rightarrow> bool" where
  "py_in sub [] = (sub = [])"
| "py_in sub (c # s) = (startswith (c # s) sub \<or> py_in sub s)"

section \<open>The click patterns of the Action Compiler\<close>

text \<open>
  The patterns of \<open>click_map\<close> use literal characters, \<open>\s*\<close> and \<open>\b\<close> only, and are
  searched with \<open>re.search(patt, msg, flags=re.I)\<close>. A pattern is a list of items;
  \<open>Lit c\<close> matches \<open>c\<close> in either case.
\<close>

datatype rx = Lit char | Spaces | Bound

text \<open>\<open>\b\<close> between the previous character (if any) and the rest of the text.\<close>

definition at_boundary :: "char option \<Rightarrow> string \<Rightarrow> bool" where
  "at_boundary prev s =
     ((case prev of None \<Rightarrow> False | Some c \<Rightarrow> is_word_char c)
        \<noteq> (case s of [] \<Rightarrow> False | d # _ \<Rightarrow> is_word_char d))"

fun rx_match :: "rx list \<Rightarrow> char option \<Rightarrow> string \<Rightarrow> bool" where
  "rx_match [] prev s = True"
| "rx_match (Bound # r) prev s = (at_boundary prev s \<and> rx_match r prev s)"
| "rx_match (Lit c # r) prev [] = False"
| "rx_match (Lit c # r) prev (d # s) = (lower_char d = lower_char c \<and> rx_match r (Some d) s)"
| "rx_match (Spaces # r) prev [] = rx_match r prev []"
| "rx_match (Spaces # r) prev (d # s) =
     ((is_space d \<and> rx_match (Spaces # r) (Some d) s) \<or> rx_match r prev (d # s))"

fun rx_search_from :: "rx list \<Rightarrow> char option \<Rightarrow> string \<Rightarrow> bool" where
  "rx_search_from p prev [] = rx_match p prev []"
| "rx_search_from p prev (d # s) = (rx_match p prev (d # s) \<or> rx_search_from p (Some d) s)"

definition re_search :: "rx list \<Rightarrow> string \<Rightarrow> bool" where
  "re_search p s = rx_search_from p None s"

definition words_rx :: "string \<Rightarrow> rx list" where
  "words_rx w = Bound # map Lit w @ [Bound]"

definition click_map :: "(rx list \<times> string) list" where
  "click_map =
     [(words_rx ''Live in it'', ''Live in it''),
      (words_rx ''Rent it out'', ''Rent it out''),
      (Bound # map Lit ''6+'' @ Spaces # map Lit ''months'' @ [Bound], ''6+ months away''),
      (Bound # map Lit ''3-6'' @ Spaces # map Lit ''months'' @ [Bound], ''3-6 months away''),
      (words_rx ''less than 3 months'', ''Less than 3 months''),
      (words_rx ''already ended'', ''It's already ended''),
      (words_rx ''Check here'', ''Check here'')]"

section \<open>Transcript Loader\<close>

text \<open>
  What \<open>pathlib\<close> reports about the path: whether it exists, its suffix, and the text
  \<open>read_text\<close> returns (already decoded).
\<close>

record path =
  exists :: bool
  suffix :: string
  read_text :: string

text \<open>
  A pandas table: the header names and the rows, each cell as the text \<open>str\<close> yields
  for it (pandas' missing value reads \<open>nan\<close>).
\<close>

record dataframe =
  columns :: "string list"
  records :: "string list list"

text \<open>
  The readers of \<open>pandas\<close> and \<open>csv\<close>, which are not part of the repository:
  \<open>read_excel engine p\<close> on the path, \<open>read_csv text sep\<close> (\<open>None\<close> is \<open>sep=None\<close>
  with the python engine) and the sniffed delimiter of a line. \<open>Inl\<close> and \<open>None\<close> stand for a
  raised exception.
\<close>

record readers =
  read_excel :: "string \<Rightarrow> path \<Rightarrow> string + dataframe"
  read_csv :: "string \<Rightarrow> string option \<Rightarrow> string + dataframe"
  sniff :: "string \<Rightarrow> string option"

datatype load_error =
    FileNotFoundError
  | UnsupportedExtension string
  | MissingColumns "string list"
  | ReaderError string

text \<open>\<open>str.splitlines()\<close> on ASCII line boundaries.\<close>

definition is_linebreak :: "char \<Rightarrow> bool" where
  "is_linebreak c = (c \<in> set [CHR 0x0A, CHR 0x0B, CHR 0x0C, CHR 0x0D, CHR 0x1C, CHR 0x1D, CHR 0x1E])"

fun splitlines :: "string \<Rightarrow> string list" where
  "splitlines [] = []"
| "splitlines [c] = (if is_linebreak c then [[]] else [[c]])"
| "splitlines (c # d # s) =
     (if c = CHR 0x0D \<and> d = CHR 0x0A then [] # splitlines s
      else if is_linebreak c then [] # splitlines (d # s)
      else (case splitlines (d # s) of [] \<Rightarrow> [[c]] | l # ls \<Rightarrow> (c # l) # ls))"

text \<open>\<open>s.replace('""', '"')\<close>, \<open>s[1:-1]\<close> and \<open>"\n".join(out)\<close>.\<close>

fun undouble_quotes :: "string \<Rightarrow> string" where
  "undouble_quotes (c # d # s) =
     (if c = CHR 0x22 \<and> d = CHR 0x22 then CHR 0x22 # undouble_quotes s
      else c # undouble_quotes (d # s))"
| "undouble_quotes s = s"

definition unwrap_line :: "string \<Rightarrow> string" where
  "unwrap_line line =
     (let s = strip line in
      if 2 \<le> length s \<and> hd s = CHR 0x22 \<and> last s = CHR 0x22
      then undouble_quotes (butlast (tl s)) else s)"

fun join_lines :: "string list \<Rightarrow> string" where
  "join_lines [] = []"
| "join_lines [l] = l"
| "join_lines (l # ls) = l @ CHR 0x0A # join_lines ls"

definition strip_outer_quotes_from_lines :: "string \<Rightarrow> string" where
  "strip_outer_quotes_from_lines raw =
     (case splitlines raw of
        [] \<Rightarrow> raw
      | l # ls \<Rightarrow>
          (let header = strip l in
           if startswith header [CHR 0x22] \<and> header \<noteq> [] \<and> last header = CHR 0x22
              \<and> CHR '','' \<in> set header
           then join_lines (map unwrap_line (l # ls))
           else raw))"

text \<open>\<open>raw.lstrip\<close> of the byte order mark: every leading one (EF BB BF in UTF-8).\<close>

fun lstrip_bom :: "string \<Rightarrow> string" where
  "lstrip_bom (a # b # c # s) =
     (if a = CHR 0xEF \<and> b = CHR 0xBB \<and> c = CHR 0xBF then lstrip_bom s else a # b # c # s)"
| "lstrip_bom s = s"

definition read_csv_text :: "readers \<Rightarrow> string \<Rightarrow> string + dataframe" where
  "read_csv_text rd text0 =
     (let raw = strip_outer_quotes_from_lines (lstrip_bom text0);
          sep = (case splitlines raw of
                   [] \<Rightarrow> '',''
                 | l # _ \<Rightarrow> (case sniff rd l of None \<Rightarrow> '','' | Some d \<Rightarrow> d))
      in case read_csv rd raw (Some sep) of
           Inr df \<Rightarrow> Inr df
         | Inl _ \<Rightarrow> read_csv rd raw None)"

text \<open>
  \<open>lower = {c.lower(): c for c in df.columns}\<close>: a later column of the same lowered
  name replaces an earlier one.
\<close>

definition lower_names :: "string list \<Rightarrow> (string \<rightharpoonup> string)" where
  "lower_names cols = map_of (rev (map (\<lambda>c. (lower c, c)) cols))"

text \<open>
  The cell of a row under the column of a given name; a short row reads \<open>nan\<close> there.
  The stripped header names are taken to be distinct: when two are equal, pandas yields
  a Series for the cell, which is outside the model.
\<close>

fun cell :: "string list \<Rightarrow> string \<Rightarrow> string list \<Rightarrow> string" where
  "cell [] name r = ''nan''"
| "cell (c # cols) name [] = ''nan''"
| "cell (c # cols) name (v # r) = (if c = name then v else cell cols name r)"

text \<open>The reader chosen by the lowered suffix; any other suffix is refused.\<close>

definition supported_extensions :: "string list" where
  "supported_extensions = [''.xlsx'', ''.xlsm'', ''.xltx'', ''.xltm'', ''.xls'', ''.xlsb'', ''.csv'']"

definition read_table :: "readers \<Rightarrow> string \<Rightarrow> path \<Rightarrow> load_error + (string + dataframe)" where
  "read_table rd ext p =
     (if ext \<in> set [''.xlsx'', ''.xlsm'', ''.xltx'', ''.xltm''] then Inr (read_excel rd ''openpyxl'' p)
      else if ext = ''.xls'' then Inr (read_excel rd ''xlrd'' p)
      else if ext = ''.xlsb'' then Inr (read_excel rd ''pyxlsb'' p)
      else if ext = ''.csv'' then Inr (read_csv_text rd (read_text p))
      else Inl (UnsupportedExtension ext))"

definition load_transcript_any ::
  "readers \<Rightarrow> path \<Rightarrow> load_error + (string \<times> string) list" where
  "load_transcript_any rd p =
     (if \<not> exists p then Inl FileNotFoundError
      else
        case read_table rd (lower (suffix p)) p of
          Inl e \<Rightarrow> Inl e
        | Inr (Inl msg) \<Rightarrow> Inl (ReaderError msg)
        | Inr (Inr df) \<Rightarrow>
            (let cols = map strip (columns df);
                 names = lower_names cols
             in case (names ''speaker'', names ''message'') of
                  (Some sp, Some ms) \<Rightarrow>
                    Inr (map (\<lambda>r. (cell cols sp r, cell cols ms r)) (records df))
                | _ \<Rightarrow> Inl (MissingColumns cols)))"

section \<open>Action Compiler\<close>

datatype step = Click string | FreeText string

text \<open>
  A turn of the report: a context turn of the transcript, or an event the runner logs.
  The timestamp and the screenshot path of an event come from the clock and the
  screenshot collaborator and are left out.
\<close>

record turn =
  role :: string
  agent :: string
  content :: string

fun first_match :: "(rx list \<times> string) list \<Rightarrow> string \<Rightarrow> string option" where
  "first_match [] msg = None"
| "first_match ((patt, label) # rest) msg =
     (if re_search patt msg then Some label else first_match rest msg)"

text \<open>The body of the loop over the rows: the context turn and the steps of one row.\<close>

definition row_context :: "string \<times> string \<Rightarrow> turn" where
  "row_context row =
     (let who = strip (fst row); msg = strip (snd row) in
      \<lparr>role = (if startswith (lower who) ''compare'' then ''assistant'' else ''user''),
       agent = (if who = [] then ''Unknown'' else who),
       content = msg\<rparr>)"

definition row_steps :: "string \<times> string \<Rightarrow> step list" where
  "row_steps row =
     (let who = strip (fst row); msg = strip (snd row) in
      if lower who = ''anant'' \<and> msg \<noteq> [] then
        (case first_match click_map msg of
           Some label \<Rightarrow> [Click label]
         | None \<Rightarrow> [FreeText msg])
      else [])"

fun build_steps_from_rows ::
  "(string \<times> string) list \<Rightarrow> step list \<times> turn list \<Rightarrow> step list \<times> turn list" where
  "build_steps_from_rows [] (steps, context) = (steps, context)"
| "build_steps_from_rows (row # rows) (steps, context) =
     build_steps_from_rows rows (steps @ row_steps row, context @ [row_context row])"

definition build_steps_from_excel ::
  "readers \<Rightarrow> path \<Rightarrow> load_error + (step list \<times> turn list)" where
  "build_steps_from_excel rd p =
     (case load_transcript_any rd p of
        Inl e \<Rightarrow> Inl e
      | Inr df \<Rightarrow> Inr (build_steps_from_rows df ([], [])))"

section \<open>Page Automation and the run state\<close>

text \<open>
  The Page Automation collaborator as a script: what the \<open>n\<close>-th call of
  \<open>current_buttons\<close>, of \<open>try_send_message\<close> and of \<open>click_button_by_text\<close> returns.
  These operations fail silently (an empty list, \<open>False\<close>) rather than raise.
  The helpers of \<open>AgentFactory\<close> around them also log to the Excel file and take a
  screenshot, with no guard: this section and the next model a run in which those calls
  return; the section on helper calls that raise models the other runs.
\<close>

record page =
  buttons :: "nat \<Rightarrow> string list"
  send_ok :: "nat \<Rightarrow> bool"
  click_ok :: "nat \<Rightarrow> bool"

text \<open>
  The calls a run makes to its collaborators and helpers, in order: \<open>Observe\<close>,
  \<open>Send\<close> and \<open>ClickText\<close> are whole calls of \<open>observe_current_buttons\<close>,
  \<open>type_and_log\<close> and \<open>click_and_log\<close> (or, for the consent banners, of
  \<open>click_button_by_text\<close>), and \<open>LogSummary\<close> is the \<open>log_to_excel\<close> of the summary.
  Waits and the guarded screenshots of the runner are left out.
\<close>

datatype call =
    Launch | Goto | Observe | Send string | ClickText string | Scroll
  | RunSummary | LogSummary | RenderReport | Close | AClose

fun is_observe :: "call \<Rightarrow> bool" where
  "is_observe Observe = True"
| "is_observe _ = False"

fun is_send :: "call \<Rightarrow> bool" where
  "is_send (Send _) = True"
| "is_send _ = False"

fun is_click :: "call \<Rightarrow> bool" where
  "is_click (ClickText _) = True"
| "is_click _ = False"

text \<open>
  The state of a run: the pending steps, the answered flags, the event log, the calls
  made so far and the number of iterations of the main loop begun so far.
\<close>

record run_state =
  pending_steps :: "step list"
  answered :: "string \<rightharpoonup> bool"
  transcript :: "turn list"
  calls :: "call list"
  ticks :: nat

definition log_event :: "string \<Rightarrow> string \<Rightarrow> string \<Rightarrow> run_state \<Rightarrow> run_state" where
  "log_event r a t st = st\<lparr>transcript := transcript st @ [\<lparr>role = r, agent = a, content = t\<rparr>]\<rparr>"

definition do_call :: "call \<Rightarrow> run_state \<Rightarrow> run_state" where
  "do_call c st = st\<lparr>calls := calls st @ [c]\<rparr>"

subsection \<open>The helpers of \<open>AgentFactory\<close>\<close>

text \<open>
  What a helper returns and the call it adds to the trace, when its \<open>log_to_excel\<close> and
  \<open>screenshot\<close> calls return.
\<close>

definition type_and_log :: "page \<Rightarrow> string \<Rightarrow> run_state \<Rightarrow> bool \<times> run_state" where
  "type_and_log pg message st =
     (send_ok pg (length (filter is_send (calls st))), do_call (Send message) st)"

definition click_and_log :: "page \<Rightarrow> string \<Rightarrow> run_state \<Rightarrow> bool \<times> run_state" where
  "click_and_log pg label st =
     (click_ok pg (length (filter is_click (calls st))), do_call (ClickText label) st)"

definition answer_choice :: "page \<Rightarrow> string \<Rightarrow> bool \<Rightarrow> run_state \<Rightarrow> string \<times> run_state" where
  "answer_choice pg label prefer_click st =
     (if \<not> prefer_click then
        (case type_and_log pg label st of
           (sent, st1) \<Rightarrow>
             if sent then (''typed'', st1)
             else (case click_and_log pg label st1 of
                     (ok, st2) \<Rightarrow> (if ok then ''clicked'' else ''failed'', st2)))
      else
        (case click_and_log pg label st of
           (ok, st1) \<Rightarrow>
             if ok then (''clicked'', st1)
             else (case type_and_log pg label st1 of
                     (sent, st2) \<Rightarrow> (if sent then ''typed'' else ''failed'', st2))))"

definition observe_current_buttons :: "page \<Rightarrow> run_state \<Rightarrow> string list \<times> run_state" where
  "observe_current_buttons pg st =
     (buttons pg (length (filter is_observe (calls st))), do_call Observe st)"

section \<open>Decision Policy / Replay Engine\<close>

definition PROGRESS_BUTTONS :: "string list" where
  "PROGRESS_BUTTONS =
     [''Compare live mortgage deals'', ''Get an expert recommendation'', ''Continue'',
      ''Next'', ''Compare deals'', ''Start comparison'', ''Proceed'', ''OK'']"

definition term_end_set :: "string set" where
  "term_end_set = {''6+ months away'', ''3-6 months away'', ''Less than 3 months'', ''It's already ended''}"

definition occupancy_set :: "string set" where
  "occupancy_set = {''Live in it'', ''Rent it out''}"

text \<open>\<open>any(x.lower() in b.lower() for b in visible)\<close>\<close>

definition visible_has :: "string \<Rightarrow> string list \<Rightarrow> bool" where
  "visible_has x visible = list_ex (\<lambda>b. py_in (lower x) (lower b)) visible"

text \<open>\<open>x or d\<close> for an optional string \<open>x\<close>.\<close>

definition py_or :: "string option \<Rightarrow> string \<Rightarrow> string" where
  "py_or x d = (case x of None \<Rightarrow> d | Some v \<Rightarrow> if v = [] then d else v)"

text \<open>\<open>CHOICE_PREFERENCES\<close>, derived from the context turns; a later turn overrides.\<close>

definition en_dash :: string where
  "en_dash = [CHR 0xE2, CHR 0x80, CHR 0x93]"

definition note_preferences :: "turn \<Rightarrow> (string \<rightharpoonup> string) \<Rightarrow> (string \<rightharpoonup> string)" where
  "note_preferences t prefs =
     (let txt = lower (content t);
          prefs1 =
            (if py_in ''live in it'' txt then prefs(''occupancy'' \<mapsto> ''Live in it'')
             else if py_in ''rent it out'' txt then prefs(''occupancy'' \<mapsto> ''Rent it out'')
             else prefs)
      in if py_in ''6+ months'' txt then prefs1(''term_end'' \<mapsto> ''6+ months away'')
         else if py_in ''3-6 months'' txt \<or> py_in (''3 '' @ en_dash @ '' 6 months'') txt
                 \<or> py_in (''3'' @ en_dash @ ''6 months'') txt
           then prefs1(''term_end'' \<mapsto> ''3-6 months away'')
         else if py_in ''less than 3 months'' txt then prefs1(''term_end'' \<mapsto> ''Less than 3 months'')
         else if py_in ''already ended'' txt then prefs1(''term_end'' \<mapsto> ''It's already ended'')
         else prefs1)"

fun choice_preferences :: "turn list \<Rightarrow> (string \<rightharpoonup> string) \<Rightarrow> (string \<rightharpoonup> string)" where
  "choice_preferences [] prefs = prefs"
| "choice_preferences (t # ts) prefs = choice_preferences ts (note_preferences t prefs)"

text \<open>Rule P: the first progress button some visible label contains, the main CTA preferred.\<close>

fun next_progress :: "string list \<Rightarrow> string list \<Rightarrow> string option" where
  "next_progress [] visible = None"
| "next_progress (pbtn # rest) visible =
     (if visible_has pbtn visible
      then Some (if list_ex (\<lambda>b. py_in ''compare live mortgage deals'' (lower b)) visible
                 then ''Compare live mortgage deals'' else pbtn)
      else next_progress rest visible)"

text \<open>\<open>_pop_matching_click\<close> and \<open>_pop_next_free_text\<close>: the popped step and the steps left.\<close>

fun pop_matching_click :: "string list \<Rightarrow> step list \<Rightarrow> (string \<times> step list) option" where
  "pop_matching_click visible [] = None"
| "pop_matching_click visible (Click lab # ss) =
     (if visible_has lab visible then Some (lab, ss)
      else map_option (\<lambda>(l, r). (l, Click lab # r)) (pop_matching_click visible ss))"
| "pop_matching_click visible (FreeText t # ss) =
     map_option (\<lambda>(l, r). (l, FreeText t # r)) (pop_matching_click visible ss)"

fun pop_next_free_text :: "step list \<Rightarrow> (string \<times> step list) option" where
  "pop_next_free_text [] = None"
| "pop_next_free_text (FreeText t # ss) = Some (t, ss)"
| "pop_next_free_text (Click lab # ss) =
     map_option (\<lambda>(t, r). (t, Click lab # r)) (pop_next_free_text ss)"

text \<open>The rule a tick takes: the conditions of the loop body, in its order.\<close>

datatype decision =
    Progress string
  | TermEnd
  | Occupancy
  | CheckHere
  | ExplicitClick string "step list"
  | NextFreeText string "step list"
  | Idle

definition decide :: "string list \<Rightarrow> run_state \<Rightarrow> decision" where
  "decide visible st =
     (case next_progress PROGRESS_BUTTONS visible of
        Some np \<Rightarrow> Progress np
      | None \<Rightarrow>
          if answered st ''term_end'' \<noteq> Some True \<and> 2 \<le> card (set visible \<inter> term_end_set)
            then TermEnd
          else if answered st ''occupancy'' \<noteq> Some True \<and> 1 \<le> card (set visible \<inter> occupancy_set)
            then Occupancy
          else if list_ex (\<lambda>b. py_in ''check here'' (lower b)) visible then CheckHere
          else (case pop_matching_click visible (pending_steps st) of
                  Some (lab, rest) \<Rightarrow> ExplicitClick lab rest
                | None \<Rightarrow>
                    (case pop_next_free_text (pending_steps st) of
                       Some (t, rest) \<Rightarrow> NextFreeText t rest
                     | None \<Rightarrow> Idle)))"

text \<open>Rule F: up to \<open>n\<close> cycles of scrolling down and observing again.\<close>

fun scroll_reobserve :: "page \<Rightarrow> nat \<Rightarrow> string list \<Rightarrow> run_state \<Rightarrow> string list \<times> run_state" where
  "scroll_reobserve pg 0 visible st = (visible, st)"
| "scroll_reobserve pg (Suc n) visible st =
     (case observe_current_buttons pg (do_call Scroll st) of
        (visible', st1) \<Rightarrow>
          if visible' \<noteq> [] then (visible', st1) else scroll_reobserve pg n visible' st1)"

definition answer_and_log ::
  "page \<Rightarrow> string \<Rightarrow> (string \<Rightarrow> string) \<Rightarrow> run_state \<Rightarrow> run_state" where
  "answer_and_log pg label text_of st =
     (case answer_choice pg label False st of
        (how, st1) \<Rightarrow> log_event ''action'' ''TestingAgent'' (text_of how) st1)"

text \<open>
  One iteration of the main loop; the flag is \<open>True\<close> for \<open>continue\<close> and \<open>False\<close>
  for \<open>break\<close>.
\<close>

definition tick :: "page \<Rightarrow> (string \<rightharpoonup> string) \<Rightarrow> run_state \<Rightarrow> bool \<times> run_state" where
  "tick pg prefs st0 =
     (case observe_current_buttons pg st0 of
        (visible, st) \<Rightarrow>
          (case decide visible st of
             Progress np \<Rightarrow>
               (True, answer_and_log pg np
                        (\<lambda>how. ''Progressed via '' @ CHR 0x27 # np @ CHR 0x27 # '' using '' @ how) st)
           | TermEnd \<Rightarrow>
               (let choice = py_or (prefs ''term_end'') ''3-6 months away'';
                    st1 = answer_and_log pg choice
                            (\<lambda>how. ''Answered 'term end' -> '' @ choice @ '' via '' @ how) st
                in (True, st1\<lparr>answered := (answered st1)(''term_end'' \<mapsto> True)\<rparr>))
           | Occupancy \<Rightarrow>
               (let choice = py_or (prefs ''occupancy'') ''Live in it'';
                    st1 = answer_and_log pg choice
                            (\<lambda>how. ''Answered 'occupancy' -> '' @ choice @ '' via '' @ how) st
                in (True, st1\<lparr>answered := (answered st1)(''occupancy'' \<mapsto> True)\<rparr>))
           | CheckHere \<Rightarrow>
               (True, answer_and_log pg ''Check here'' (\<lambda>how. ''Chose product via '' @ how) st)
           | ExplicitClick lab rest \<Rightarrow>
               (True, answer_and_log pg lab
                        (\<lambda>how. ''Matched transcript choice '' @ CHR 0x27 # lab @ CHR 0x27 # '' via '' @ how)
                        (st\<lparr>pending_steps := rest\<rparr>))
           | NextFreeText t rest \<Rightarrow>
               (case type_and_log pg t (st\<lparr>pending_steps := rest\<rparr>) of
                  (sent, st1) \<Rightarrow> (True, log_event ''user'' ''You'' t st1))
           | Idle \<Rightarrow>
               (case scroll_reobserve pg 3 visible st of
                  (visible', st1) \<Rightarrow>
                    (False, log_event ''info'' ''TestingAgent''
                              ''No matching buttons or text left; pausing.'' st1))))"

text \<open>\<open>for _ in range(n)\<close> around the loop body.\<close>

fun main_loop :: "page \<Rightarrow> (string \<rightharpoonup> string) \<Rightarrow> nat \<Rightarrow> run_state \<Rightarrow> run_state" where
  "main_loop pg prefs 0 st = st"
| "main_loop pg prefs (Suc n) st =
     (case tick pg prefs (st\<lparr>ticks := Suc (ticks st)\<rparr>) of
        (True, st') \<Rightarrow> main_loop pg prefs n st'
      | (False, st') \<Rightarrow> st')"

section \<open>The scenario run\<close>

text \<open>
  What lies outside the page script: whether \<open>launch\<close> and \<open>goto\<close> return or raise,
  whether \<open>AIQA_SKIP_LLM\<close> is \<open>1\<close>, and what the summary agent returns (\<open>Inl\<close> is the
  exception it raises).
\<close>

record world =
  ui :: page
  launch_ok :: bool
  goto_ok :: bool
  skip_llm :: bool
  summary_result :: "string + string"

datatype run_error =
    TranscriptError load_error | LaunchError | NavigationError | HelperError call

definition initial_state :: "step list \<Rightarrow> turn list \<Rightarrow> run_state" where
  "initial_state manual_convo tr =
     \<lparr>pending_steps = manual_convo,
      answered = [''term_end'' \<mapsto> False, ''occupancy'' \<mapsto> False],
      transcript = tr, calls = [], ticks = 0\<rparr>"

text \<open>The consent banners: the first label whose click succeeds is logged, and the loop ends.\<close>

fun consent :: "page \<Rightarrow> string list \<Rightarrow> run_state \<Rightarrow> run_state" where
  "consent pg [] st = st"
| "consent pg (label # rest) st =
     (let ok = click_ok pg (length (filter is_click (calls st)));
          st1 = do_call (ClickText label) st
      in if ok then log_event ''action'' ''TestingAgent'' (''Clicked consent: '' @ label) st1
         else consent pg rest st1)"

text \<open>The optional summary: a failure of the agent is caught and becomes the text.\<close>

definition end_of_run_summary :: "world \<Rightarrow> run_state \<Rightarrow> string \<times> run_state" where
  "end_of_run_summary w st =
     (if skip_llm w then (''LLM summary skipped.'', st)
      else (case summary_result w of
              Inr msg \<Rightarrow> (msg, do_call RunSummary st)
            | Inl e \<Rightarrow> (''Summary failed: '' @ e, do_call RunSummary st)))"

text \<open>
  Opening the app: \<open>launch\<close> and \<open>goto\<close> may raise, which ends the run there (the
  error, and the state reached); then the opening event and the consent banners.
\<close>

definition open_app :: "world \<Rightarrow> run_state \<Rightarrow> run_error option \<times> run_state" where
  "open_app w st =
     (let st1 = do_call Launch st in
      if \<not> launch_ok w then (Some LaunchError, st1)
      else
        let st2 = do_call Goto st1 in
        if \<not> goto_ok w then (Some NavigationError, st2)
        else
          let st3 = log_event ''action'' ''TestingAgent'' ''Opened app.'' st2
          in (None, consent (ui w)
                      [''Accept all cookies'', ''Accept'', ''I agree'', ''Got it'', ''Close''] st3))"

text \<open>
  After the loop: the summary, its line in the Excel log, its event, the report, and the
  two closes.
\<close>

definition finish_run :: "world \<Rightarrow> run_state \<Rightarrow> run_state" where
  "finish_run w st5 =
     (case end_of_run_summary w st5 of
        (summary_text, st6) \<Rightarrow>
          (let st7 = log_event ''assistant'' ''TestingAgent'' summary_text (do_call LogSummary st6);
               st8 = do_call RenderReport st7
           in do_call AClose (do_call Close st8)))"

text \<open>
  The run, when the helper calls return: its error, if it ended by an exception of the
  loader, of \<open>launch\<close> or of \<open>goto\<close>, and the state it reached.
\<close>

definition run_scenario1 :: "readers \<Rightarrow> path \<Rightarrow> world \<Rightarrow> run_error option \<times> run_state" where
  "run_scenario1 rd p w =
     (case build_steps_from_excel rd p of
        Inl e \<Rightarrow> (Some (TranscriptError e), initial_state [] [])
      | Inr (manual_convo, context_transcript) \<Rightarrow>
          (case open_app w (initial_state manual_convo context_transcript) of
             (Some e, st) \<Rightarrow> (Some e, st)
           | (None, st4) \<Rightarrow>
               (let prefs = choice_preferences context_transcript Map.empty;
                    st5 = main_loop (ui w) prefs 80 st4
                in (None, finish_run w st5))))"

section \<open>Helper calls that raise\<close>

text \<open>
  \<open>observe_current_buttons\<close>, \<open>type_and_log\<close> and \<open>click_and_log\<close> call
  \<open>log_to_excel\<close> and \<open>screenshot\<close> with no guard, \<open>scroll_down\<close> drives the mouse
  wheel with no guard, and after the loop the summary is logged, the report written and
  the two closes made with no guard. An exception of one of these calls leaves the
  runner at once. \<open>raises k\<close> says that the call at position \<open>k\<close> of the trace, when
  it is one of these, raises instead of returning. The consent clicks, the summary agent
  and the runner's own screenshots are guarded in the source and cannot end the run.
\<close>

definition attempt :: "(nat \<Rightarrow> bool) \<Rightarrow> call \<Rightarrow> run_state \<Rightarrow> run_error option \<times> run_state" where
  "attempt raises c st =
     (if raises (length (calls st)) then Some (HelperError c) else None, do_call c st)"

text \<open>A helper call: the exception, or what the helper returns.\<close>

definition guarded ::
  "(nat \<Rightarrow> bool) \<Rightarrow> call \<Rightarrow> (run_state \<Rightarrow> 'a \<times> run_state) \<Rightarrow> run_state
     \<Rightarrow> (run_error + 'a) \<times> run_state" where
  "guarded raises c helper st =
     (if raises (length (calls st)) then (Inl (HelperError c), do_call c st)
      else (case helper st of (x, st') \<Rightarrow> (Inr x, st')))"

definition type_and_log_exn ::
  "(nat \<Rightarrow> bool) \<Rightarrow> page \<Rightarrow> string \<Rightarrow> run_state \<Rightarrow> (run_error + bool) \<times> run_state" where
  "type_and_log_exn raises pg message = guarded raises (Send message) (type_and_log pg message)"

definition click_and_log_exn ::
  "(nat \<Rightarrow> bool) \<Rightarrow> page \<Rightarrow> string \<Rightarrow> run_state \<Rightarrow> (run_error + bool) \<times> run_state" where
  "click_and_log_exn raises pg label = guarded raises (ClickText label) (click_and_log pg label)"

definition observe_current_buttons_exn ::
  "(nat \<Rightarrow> bool) \<Rightarrow> page \<Rightarrow> run_state \<Rightarrow> (run_error + string list) \<times> run_state" where
  "observe_current_buttons_exn raises pg = guarded raises Observe (observe_current_buttons pg)"

definition answer_choice_exn ::
  "(nat \<Rightarrow> bool) \<Rightarrow> page \<Rightarrow> string \<Rightarrow> bool \<Rightarrow> run_state \<Rightarrow> (run_error + string) \<times> run_state" where
  "answer_choice_exn raises pg label prefer_click st =
     (if \<not> prefer_click then
        (case type_and_log_exn raises pg label st of
           (Inl e, st1) \<Rightarrow> (Inl e, st1)
         | (Inr sent, st1) \<Rightarrow>
             if sent then (Inr ''typed'', st1)
             else (case click_and_log_exn raises pg label st1 of
                     (Inl e, st2) \<Rightarrow> (Inl e, st2)
                   | (Inr ok, st2) \<Rightarrow> (Inr (if ok then ''clicked'' else ''failed''), st2)))
      else
        (case click_and_log_exn raises pg label st of
           (Inl e, st1) \<Rightarrow> (Inl e, st1)
         | (Inr ok, st1) \<Rightarrow>
             if ok then (Inr ''clicked'', st1)
             else (case type_and_log_exn raises pg label st1 of
                     (Inl e, st2) \<Rightarrow> (Inl e, st2)
                   | (Inr sent, st2) \<Rightarrow> (Inr (if sent then ''typed'' else ''failed''), st2))))"

fun scroll_reobserve_exn ::
  "(nat \<Rightarrow> bool) \<Rightarrow> page \<Rightarrow> nat \<Rightarrow> string list \<Rightarrow> run_state
     \<Rightarrow> (run_error + string list) \<times> run_state" where
  "scroll_reobserve_exn raises pg 0 visible st = (Inr visible, st)"
| "scroll_reobserve_exn raises pg (Suc n) visible st =
     (case attempt raises Scroll st of
        (Some e, st1) \<Rightarrow> (Inl e, st1)
      | (None, st1) \<Rightarrow>
          (case observe_current_buttons_exn raises pg st1 of
             (Inl e, st2) \<Rightarrow> (Inl e, st2)
           | (Inr visible', st2) \<Rightarrow>
               if visible' \<noteq> [] then (Inr visible', st2)
               else scroll_reobserve_exn raises pg n visible' st2))"

text \<open>The answer and its event; the exception of the answer leaves no event.\<close>

definition answer_and_log_exn ::
  "(nat \<Rightarrow> bool) \<Rightarrow> page \<Rightarrow> string \<Rightarrow> (string \<Rightarrow> string) \<Rightarrow> run_state
     \<Rightarrow> run_error option \<times> run_state" where
  "answer_and_log_exn raises pg label text_of st =
     (case answer_choice_exn raises pg label False st of
        (Inl e, st1) \<Rightarrow> (Some e, st1)
      | (Inr how, st1) \<Rightarrow> (None, log_event ''action'' ''TestingAgent'' (text_of how) st1))"

text \<open>
  One iteration of the main loop: \<open>Inl\<close> for an exception, \<open>Inr True\<close> for
  \<open>continue\<close>, \<open>Inr False\<close> for \<open>break\<close>.
\<close>

definition tick_exn ::
  "(nat \<Rightarrow> bool) \<Rightarrow> page \<Rightarrow> (string \<rightharpoonup> string) \<Rightarrow> run_state \<Rightarrow> (run_error + bool) \<times> run_state" where
  "tick_exn raises pg prefs st0 =
     (case observe_current_buttons_exn raises pg st0 of
        (Inl e, st) \<Rightarrow> (Inl e, st)
      | (Inr visible, st) \<Rightarrow>
          (case decide visible st of
             Progress np \<Rightarrow>
               (case answer_and_log_exn raises pg np
                       (\<lambda>how. ''Progressed via '' @ CHR 0x27 # np @ CHR 0x27 # '' using '' @ how) st of
                  (Some e, st1) \<Rightarrow> (Inl e, st1)
                | (None, st1) \<Rightarrow> (Inr True, st1))
           | TermEnd \<Rightarrow>
               (let choice = py_or (prefs ''term_end'') ''3-6 months away'' in
                case answer_and_log_exn raises pg choice
                       (\<lambda>how. ''Answered 'term end' -> '' @ choice @ '' via '' @ how) st of
                  (Some e, st1) \<Rightarrow> (Inl e, st1)
                | (None, st1) \<Rightarrow>
                    (Inr True, st1\<lparr>answered := (answered st1)(''term_end'' \<mapsto> True)\<rparr>))
           | Occupancy \<Rightarrow>
               (let choice = py_or (prefs ''occupancy'') ''Live in it'' in
                case answer_and_log_exn raises pg choice
                       (\<lambda>how. ''Answered 'occupancy' -> '' @ choice @ '' via '' @ how) st of
                  (Some e, st1) \<Rightarrow> (Inl e, st1)
                | (None, st1) \<Rightarrow>
                    (Inr True, st1\<lparr>answered := (answered st1)(''occupancy'' \<mapsto> True)\<rparr>))
           | CheckHere \<Rightarrow>
               (case answer_and_log_exn raises pg ''Check here''
                       (\<lambda>how. ''Chose product via '' @ how) st of
                  (Some e, st1) \<Rightarrow> (Inl e, st1)
                | (None, st1) \<Rightarrow> (Inr True, st1))
           | ExplicitClick lab rest \<Rightarrow>
               (case answer_and_log_exn raises pg lab
                       (\<lambda>how. ''Matched transcript choice '' @ CHR 0x27 # lab @ CHR 0x27 # '' via '' @ how)
                       (st\<lparr>pending_steps := rest\<rparr>) of
                  (Some e, st1) \<Rightarrow> (Inl e, st1)
                | (None, st1) \<Rightarrow> (Inr True, st1))
           | NextFreeText t rest \<Rightarrow>
               (case type_and_log_exn raises pg t (st\<lparr>pending_steps := rest\<rparr>) of
                  (Inl e, st1) \<Rightarrow> (Inl e, st1)
                | (Inr sent, st1) \<Rightarrow> (Inr True, log_event ''user'' ''You'' t st1))
           | Idle \<Rightarrow>
               (case scroll_reobserve_exn raises pg 3 visible st of
                  (Inl e, st1) \<Rightarrow> (Inl e, st1)
                | (Inr visible', st1) \<Rightarrow>
                    (Inr False, log_event ''info'' ''TestingAgent''
                                  ''No matching buttons or text left; pausing.'' st1))))"

text \<open>The loop: an exception of a tick ends it with that exception.\<close>

fun main_loop_exn ::
  "(nat \<Rightarrow> bool) \<Rightarrow> page \<Rightarrow> (string \<rightharpoonup> string) \<Rightarrow> nat \<Rightarrow> run_state
     \<Rightarrow> run_error option \<times> run_state" where
  "main_loop_exn raises pg prefs 0 st = (None, st)"
| "main_loop_exn raises pg prefs (Suc n) st =
     (case tick_exn raises pg prefs (st\<lparr>ticks := Suc (ticks st)\<rparr>) of
        (Inl e, st') \<Rightarrow> (Some e, st')
      | (Inr True, st') \<Rightarrow> main_loop_exn raises pg prefs n st'
      | (Inr False, st') \<Rightarrow> (None, st'))"

text \<open>A sequence of unguarded calls: the first that raises ends it.\<close>

fun attempt_all :: "(nat \<Rightarrow> bool) \<Rightarrow> call list \<Rightarrow> run_state \<Rightarrow> run_error option \<times> run_state" where
  "attempt_all raises [] st = (None, st)"
| "attempt_all raises (c # cs) st =
     (case attempt raises c st of
        (Some e, st') \<Rightarrow> (Some e, st')
      | (None, st') \<Rightarrow> attempt_all raises cs st')"

definition finish_run_exn :: "(nat \<Rightarrow> bool) \<Rightarrow> world \<Rightarrow> run_state \<Rightarrow> run_error option \<times> run_state" where
  "finish_run_exn raises w st5 =
     (case end_of_run_summary w st5 of
        (summary_text, st6) \<Rightarrow>
          (case attempt raises LogSummary st6 of
             (Some e, st') \<Rightarrow> (Some e, st')
           | (None, st') \<Rightarrow>
               attempt_all raises [RenderReport, Close, AClose]
                 (log_event ''assistant'' ''TestingAgent'' summary_text st')))"

text \<open>The run, whatever its helper calls do.\<close>

definition run_scenario1_exn ::
  "(nat \<Rightarrow> bool) \<Rightarrow> readers \<Rightarrow> path \<Rightarrow> world \<Rightarrow> run_error option \<times> run_state" where
  "run_scenario1_exn raises rd p w =
     (case build_steps_from_excel rd p of
        Inl e \<Rightarrow> (Some (TranscriptError e), initial_state [] [])
      | Inr (manual_convo, context_transcript) \<Rightarrow>
          (case open_app w (initial_state manual_convo context_transcript) of
             (Some e, st) \<Rightarrow> (Some e, st)
           | (None, st4) \<Rightarrow>
               (let prefs = choice_preferences context_transcript Map.empty in
                case main_loop_exn raises (ui w) prefs 80 st4 of
                  (Some e, st5) \<Rightarrow> (Some e, st5)
                | (None, st5) \<Rightarrow> finish_run_exn raises w st5)))"

section \<open>Semantic Judge\<close>

text \<open>
  The embedding collaborator: whether \<open>OpenAIEmbeddings\<close> is importable and can be
  constructed, the vector it returns for a text, and \<open>cosine_similarity\<close> of
  scikit-learn. A score is the real number the float stands for.
\<close>

record embeddings =
  available :: bool
  embed_query :: "string \<Rightarrow> real list"
  cosine_similarity :: "real list \<Rightarrow> real list \<Rightarrow> real"

datatype judge_error = EmbeddingsUnavailable

text \<open>The result, and the texts sent to \<open>embed_query\<close>, in order.\<close>

definition semantic_agreement ::
  "embeddings \<Rightarrow> string \<Rightarrow> string \<Rightarrow> real \<Rightarrow> (judge_error + bool \<times> real) \<times> string list" where
  "semantic_agreement emb text_a text_b threshold =
     (if text_a = [] \<or> text_b = [] then (Inr (False, 0), [])
      else if \<not> available emb then (Inl EmbeddingsUnavailable, [])
      else
        let v_a = embed_query emb text_a;
            v_b = embed_query emb text_b;
            score = cosine_similarity emb v_a v_b
        in (Inr (threshold \<le> score, score), [text_a, text_b]))"

section \<open>Notions used in the properties\<close>

text \<open>
  The event Rule A logs: role \<open>action\<close>, and a text that begins as its format string does.
\<close>

definition is_term_end_event :: "turn \<Rightarrow> bool" where
  "is_term_end_event e = (role e = ''action'' \<and> startswith (content e) ''Answered 'term end' -> '')"

definition term_end_events :: "run_state \<Rightarrow> nat" where
  "term_end_events st = length (filter is_term_end_event (transcript st))"

text \<open>The number of observations made so far.\<close>

definition observed :: "run_state \<Rightarrow> nat" where
  "observed st = length (filter is_observe (calls st))"

subsection \<open>Example inputs\<close>

text \<open>A path that does not exist, and of a suffix no reader takes.\<close>

definition missing_txt :: path where
  "missing_txt = \<lparr>exists = False, suffix = ''.txt'', read_text = []\<rparr>"

text \<open>An empty CSV file, on which every reader raises.\<close>

definition empty_csv :: path where
  "empty_csv = \<lparr>exists = True, suffix = ''.csv'', read_text = []\<rparr>"

definition failing_readers :: readers where
  "failing_readers =
     \<lparr>read_excel = (\<lambda>engine p. Inl ''BadZipFile''),
      read_csv = (\<lambda>raw sep. Inl ''EmptyDataError''),
      sniff = (\<lambda>line. None)\<rparr>"

text \<open>The three-row transcript of the end-to-end scenario, as a CSV file and its table.\<close>

definition scenario_rows :: "(string \<times> string) list" where
  "scenario_rows = [(''Compare'', ''Welcome''), (''Anant'', ''Live in it''), (''Anant'', ''looking good'')]"

definition scenario_csv :: path where
  "scenario_csv = \<lparr>exists = True, suffix = ''.CSV'', read_text = ''Speaker,Message''\<rparr>"

definition scenario_table :: dataframe where
  "scenario_table =
     \<lparr>columns = ['' speaker'', ''Note'', ''MESSAGE''],
      records = [[''Compare'', ''1'', ''Welcome''], [''Anant'', ''2'', ''Live in it''],
                 [''Anant'', ''3'', ''looking good'']]\<rparr>"

definition scenario_readers :: readers where
  "scenario_readers =
     \<lparr>read_excel = (\<lambda>engine p. Inl ''BadZipFile''),
      read_csv = (\<lambda>raw sep. Inr scenario_table),
      sniff = (\<lambda>line. Some '','')\<rparr>"

text \<open>A stub of the embedding collaborator that returns the same vector for every text.\<close>

definition same_vector_embeddings :: embeddings where
  "same_vector_embeddings =
     \<lparr>available = True, embed_query = (\<lambda>t. [1, 0]), cosine_similarity = (\<lambda>u v. if u = v then 1 else 0)\<rparr>"

text \<open>
  The page of the end-to-end scenario: the occupancy choices at the first observation,
  nothing afterwards; typing succeeds, clicking does not.
\<close>

definition scenario_page :: page where
  "scenario_page =
     \<lparr>buttons = (\<lambda>n. if n = 0 then [''Live in it'', ''Rent it out''] else []),
      send_ok = (\<lambda>n. True), click_ok = (\<lambda>n. False)\<rparr>"

text \<open>A page that shows nothing until the first scroll reveals a progress button.\<close>

definition reveal_page :: page where
  "reveal_page =
     \<lparr>buttons = (\<lambda>n. if n = 1 then [''Continue''] else []),
      send_ok = (\<lambda>n. True), click_ok = (\<lambda>n. False)\<rparr>"

text \<open>A page that always shows two term-end choices, and one that shows a progress button too.\<close>

definition term_end_page :: page where
  "term_end_page =
     \<lparr>buttons = (\<lambda>n. [''6+ months away'', ''3-6 months away'']),
      send_ok = (\<lambda>n. True), click_ok = (\<lambda>n. False)\<rparr>"

definition continue_page :: page where
  "continue_page =
     \<lparr>buttons = (\<lambda>n. [''6+ months away'', ''3-6 months away'', ''Continue'']),
      send_ok = (\<lambda>n. True), click_ok = (\<lambda>n. False)\<rparr>"

text \<open>Worlds around these pages: one where all goes well but the summary, one where navigation fails.\<close>

definition scenario_world :: world where
  "scenario_world =
     \<lparr>ui = scenario_page, launch_ok = True, goto_ok = True, skip_llm = False,
      summary_result = Inl ''timeout''\<rparr>"

definition capped_world :: world where
  "capped_world =
     \<lparr>ui = continue_page, launch_ok = True, goto_ok = True, skip_llm = True,
      summary_result = Inr []\<rparr>"

definition offline_world :: world where
  "offline_world =
     \<lparr>ui = scenario_page, launch_ok = True, goto_ok = False, skip_llm = True,
      summary_result = Inr []\<rparr>"

text \<open>A page that shows a generic progress button before the main call to action.\<close>

definition cta_page :: page where
  "cta_page =
     \<lparr>buttons = (\<lambda>n. [''Continue'', ''Compare live mortgage deals'']),
      send_ok = (\<lambda>n. True), click_ok = (\<lambda>n. False)\<rparr>"

section \<open>Properties of the text helpers\<close>

lemma upper_lower_table_facts:
  "list_all (\<lambda>(c, d). map_of upper_lower_table d = None \<and> \<not> is_space c \<and> \<not> is_space d
      \<and> is_word_char c \<and> is_word_char d) upper_lower_table"
  by code_simp

lemma lower_char_cases:
  obtains "lower_char c = c" "map_of upper_lower_table c = None"
  | d where "lower_char c = d" "map_of upper_lower_table d = None"
      "\<not> is_space c" "\<not> is_space d" "is_word_char c" "is_word_char d"
proof (cases "map_of upper_lower_table c")
  case None
  then have "lower_char c = c" by (simp add: lower_char_def)
  with None show ?thesis using that(1) by blast
next
  case (Some d)
  then have "(c, d) \<in> set upper_lower_table" by (rule map_of_SomeD)
  with upper_lower_table_facts
  have "map_of upper_lower_table d = None \<and> \<not> is_space c \<and> \<not> is_space d
      \<and> is_word_char c \<and> is_word_char d"
    unfolding list_all_iff by blast
  moreover have "lower_char c = d" using Some by (simp add: lower_char_def)
  ultimately show ?thesis using that(2) by blast
qed

lemma lower_char_idem: "lower_char (lower_char c) = lower_char c"
  by (rule lower_char_cases [of c]) (simp_all add: lower_char_def)

lemma is_space_lower_char: "is_space (lower_char c) = is_space c"
  by (rule lower_char_cases [of c]) simp_all

lemma is_word_lower_char: "is_word_char (lower_char c) = is_word_char c"
  by (rule lower_char_cases [of c]) simp_all

lemma at_boundary_lower:
  "at_boundary (map_option lower_char prev) (lower s) = at_boundary prev s"
  by (cases prev; cases s) (simp_all add: at_boundary_def lower_def is_word_lower_char)

lemma rx_match_lower:
  "rx_match p (map_option lower_char prev) (lower s) = rx_match p prev s"
proof (induction p prev s rule: rx_match.induct)
  case (2 r prev s)
  then show ?case by (simp add: at_boundary_lower)
next
  case (4 c r prev d s)
  then show ?case by (simp add: lower_def lower_char_idem)
next
  case (6 r prev d s)
  then show ?case by (simp add: lower_def is_space_lower_char)
qed (simp_all add: lower_def)

lemma rx_search_from_lower:
  "rx_search_from p (map_option lower_char prev) (lower s) = rx_search_from p prev s"
proof (induction s arbitrary: prev)
  case Nil
  show ?case using rx_match_lower [of p prev "[]"] by (simp add: lower_def)
next
  case (Cons d s)
  show ?case
    using rx_match_lower [of p prev "d # s"] Cons [of "Some d"]
    by (simp add: lower_def)
qed

lemma re_search_lower: "re_search p (lower s) = re_search p s"
  using rx_search_from_lower [of p None s] by (simp add: re_search_def)

lemma first_match_lower: "first_match tbl (lower s) = first_match tbl s"
  by (induction tbl s rule: first_match.induct) (simp_all add: re_search_lower)

lemma dropWhile_space_lower:
  "dropWhile is_space (lower s) = lower (dropWhile is_space s)"
  by (induction s) (simp_all add: lower_def is_space_lower_char)

lemma strip_lower: "strip (lower s) = lower (strip s)"
proof -
  have r: "rev (lower t) = lower (rev t)" for t by (simp add: lower_def rev_map)
  show ?thesis
    by (simp add: strip_def lstrip_def rstrip_def dropWhile_space_lower r)
qed

lemma lower_lower: "lower (lower s) = lower s"
  by (simp add: lower_def lower_char_idem)

lemma first_match_Some_iff:
  "first_match tbl msg = Some label \<longleftrightarrow>
     (\<exists>i < length tbl. re_search (fst (tbl ! i)) msg
        \<and> (\<forall>j < i. \<not> re_search (fst (tbl ! j)) msg) \<and> label = snd (tbl ! i))"
proof (induction tbl msg rule: first_match.induct)
  case (1 msg)
  show ?case by simp
next
  case (2 patt lab rest msg)
  show ?case
  proof (cases "re_search patt msg")
    case True
    have "(\<exists>i < Suc (length rest). re_search (fst (((patt, lab) # rest) ! i)) msg
        \<and> (\<forall>j < i. \<not> re_search (fst (((patt, lab) # rest) ! j)) msg)
        \<and> label = snd (((patt, lab) # rest) ! i)) \<longleftrightarrow> label = lab"
      using True by (simp add: Ex_less_Suc2 All_less_Suc2)
    with True show ?thesis by auto
  next
    case False
    with 2 show ?thesis
      by (simp add: Ex_less_Suc2 All_less_Suc2)
  qed
qed

lemma first_match_None_iff:
  "first_match tbl msg = None \<longleftrightarrow> (\<forall>i < length tbl. \<not> re_search (fst (tbl ! i)) msg)"
  by (induction tbl msg rule: first_match.induct) (simp_all add: All_less_Suc2)

lemma build_steps_from_rows_eq:
  "build_steps_from_rows rows (steps, ctx) =
     (steps @ concat (map row_steps rows), ctx @ map row_context rows)"
  by (induction rows arbitrary: steps ctx) simp_all

lemma strip_all_space: "(\<forall>c \<in> set s. is_space c) \<Longrightarrow> strip s = []"
proof -
  assume "\<forall>c \<in> set s. is_space c"
  then have h: "dropWhile is_space s = []" by (simp only: dropWhile_eq_Nil_conv)
  show ?thesis
    by (simp only: strip_def lstrip_def rstrip_def h rev.simps dropWhile.simps)
qed

lemma lstrip_pad: "(\<forall>c \<in> set pre. is_space c) \<Longrightarrow> lstrip (pre @ s) = lstrip s"
  by (simp add: lstrip_def dropWhile_append)

lemma rstrip_pad: "(\<forall>c \<in> set post. is_space c) \<Longrightarrow> rstrip (s @ post) = rstrip s"
  by (simp add: rstrip_def dropWhile_append)

lemma lstrip_append: "lstrip s \<noteq> [] \<Longrightarrow> lstrip (s @ t) = lstrip s @ t"
proof -
  assume "lstrip s \<noteq> []"
  then obtain x where "x \<in> set s" "\<not> is_space x"
    unfolding lstrip_def dropWhile_eq_Nil_conv by blast
  then show ?thesis unfolding lstrip_def by (rule dropWhile_append1)
qed

lemma strip_pad:
  assumes pre: "\<forall>c \<in> set pre. is_space c" and post: "\<forall>c \<in> set post. is_space c"
  shows "strip (pre @ s @ post) = strip s"
proof (cases "lstrip s = []")
  case True
  then have "dropWhile is_space s = []" by (simp only: lstrip_def)
  then have sp: "\<forall>c \<in> set s. is_space c" by (simp only: dropWhile_eq_Nil_conv)
  with pre post have "\<forall>c \<in> set (pre @ s @ post). is_space c" by auto
  then have "strip (pre @ s @ post) = []" by (rule strip_all_space)
  moreover have "strip s = []" using sp by (rule strip_all_space)
  ultimately show ?thesis by (simp only:)
next
  case False
  have "lstrip (pre @ s @ post) = lstrip (s @ post)" using pre by (rule lstrip_pad)
  also have "\<dots> = lstrip s @ post" using False by (rule lstrip_append)
  finally show ?thesis using post by (simp add: strip_def rstrip_pad)
qed

section \<open>Frame properties of the engine\<close>

lemma answer_choice_frame:
  "answer_choice pg label pc st = (how, st') \<Longrightarrow>
     transcript st' = transcript st \<and> answered st' = answered st
     \<and> pending_steps st' = pending_steps st \<and> ticks st' = ticks st
     \<and> filter is_observe (calls st') = filter is_observe (calls st)"
  by (auto simp: answer_choice_def type_and_log_def click_and_log_def do_call_def
      split: if_splits)

lemma answer_and_log_frame:
  "answered (answer_and_log pg label f st) = answered st"
  "pending_steps (answer_and_log pg label f st) = pending_steps st"
  "ticks (answer_and_log pg label f st) = ticks st"
  "filter is_observe (calls (answer_and_log pg label f st)) = filter is_observe (calls st)"
  "transcript (answer_and_log pg label f st) =
     transcript st @ [\<lparr>role = ''action'', agent = ''TestingAgent'',
        content = f (fst (answer_choice pg label False st))\<rparr>]"
proof -
  obtain how st' where a: "answer_choice pg label False st = (how, st')"
    by (cases "answer_choice pg label False st")
  note fr = answer_choice_frame [OF a]
  show "answered (answer_and_log pg label f st) = answered st"
    by (simp add: answer_and_log_def a log_event_def fr)
  show "pending_steps (answer_and_log pg label f st) = pending_steps st"
    by (simp add: answer_and_log_def a log_event_def fr)
  show "ticks (answer_and_log pg label f st) = ticks st"
    by (simp add: answer_and_log_def a log_event_def fr)
  show "filter is_observe (calls (answer_and_log pg label f st)) = filter is_observe (calls st)"
    by (simp add: answer_and_log_def a log_event_def fr)
  show "transcript (answer_and_log pg label f st) =
     transcript st @ [\<lparr>role = ''action'', agent = ''TestingAgent'',
        content = f (fst (answer_choice pg label False st))\<rparr>]"
    by (simp add: answer_and_log_def a log_event_def fr)
qed

lemma scroll_reobserve_frame:
  "scroll_reobserve pg n v st = (v', st') \<Longrightarrow>
     transcript st' = transcript st \<and> answered st' = answered st
     \<and> pending_steps st' = pending_steps st \<and> ticks st' = ticks st"
proof (induction n arbitrary: v st)
  case 0
  then show ?case by simp
next
  case (Suc n)
  then show ?case
    by (auto simp: observe_current_buttons_def do_call_def split: if_splits)
qed

lemma decide_frame:
  assumes "answered st' = answered st" and "pending_steps st' = pending_steps st"
  shows "decide v st' = decide v st"
  unfolding decide_def assms ..

lemma decide_do_call [simp]: "decide v (do_call c st) = decide v st"
  by (rule decide_frame) (simp_all add: do_call_def)

lemma decide_TermEnd: "decide v st = TermEnd \<Longrightarrow> answered st ''term_end'' \<noteq> Some True"
  by (auto simp: decide_def split: option.splits if_splits)

lemma tick_answered_mono:
  "answered st k = Some True \<Longrightarrow> answered (snd (tick pg prefs st)) k = Some True"
  by (auto simp: tick_def observe_current_buttons_def answer_and_log_frame type_and_log_def
      log_event_def do_call_def Let_def
      split: decision.splits prod.splits dest: scroll_reobserve_frame)

lemma main_loop_break:
  "tick pg prefs (st\<lparr>ticks := Suc (ticks st)\<rparr>) = (False, st') \<Longrightarrow> main_loop pg prefs (Suc n) st = st'"
  by simp

lemma main_loop_continue:
  "tick pg prefs (st\<lparr>ticks := Suc (ticks st)\<rparr>) = (True, st')
     \<Longrightarrow> main_loop pg prefs (Suc n) st = main_loop pg prefs n st'"
  by simp

lemma tick_Idle:
  assumes "decide (buttons pg (observed st)) st = Idle"
  shows "tick pg prefs st =
     (False, log_event ''info'' ''TestingAgent'' ''No matching buttons or text left; pausing.''
        (snd (scroll_reobserve pg 3 (buttons pg (observed st)) (do_call Observe st))))"
  using assms by (simp add: tick_def observe_current_buttons_def observed_def split: prod.splits)

lemma next_progress_None_iff:
  "next_progress ps v = None \<longleftrightarrow> (\<forall>p \<in> set ps. \<not> visible_has p v)"
  by (induction ps) simp_all

lemma next_progress_eq:
  "next_progress ps v =
     map_option (\<lambda>p. if list_ex (\<lambda>b. py_in ''compare live mortgage deals'' (lower b)) v
                       then ''Compare live mortgage deals'' else p)
       (find (\<lambda>p. visible_has p v) ps)"
  by (induction ps) simp_all

lemma startswith_refl: "startswith s s"
  by (induction s) simp_all

lemma py_in_refl: "py_in s s"
  by (cases s) (simp_all add: startswith_refl)

lemma tick_Progress:
  assumes "decide (buttons pg (observed st)) st = Progress np"
  shows "tick pg prefs st =
     (True, answer_and_log pg np
        (\<lambda>how. ''Progressed via '' @ CHR 0x27 # np @ CHR 0x27 # '' using '' @ how)
        (do_call Observe st))"
  using assms by (simp add: tick_def observe_current_buttons_def observed_def)

lemma decide_Progress_iff:
  "decide v st = Progress np \<longleftrightarrow> next_progress PROGRESS_BUTTONS v = Some np"
  by (auto simp: decide_def split: option.splits)

lemma answer_and_log_calls:
  "calls (answer_and_log pg label f st) =
     calls st @ Send label #
       (if send_ok pg (length (filter is_send (calls st))) then [] else [ClickText label])"
  by (simp add: answer_and_log_def answer_choice_def type_and_log_def click_and_log_def
      do_call_def log_event_def)


lemma tick_Occupancy:
  assumes "decide (buttons pg (observed st)) st = Occupancy"
  shows "tick pg prefs st =
     (let choice = py_or (prefs ''occupancy'') ''Live in it'';
          st1 = answer_and_log pg choice
                  (\<lambda>how. ''Answered 'occupancy' -> '' @ choice @ '' via '' @ how)
                  (do_call Observe st)
      in (True, st1\<lparr>answered := (answered st1)(''occupancy'' \<mapsto> True)\<rparr>))"
  using assms
  by (simp add: tick_def observe_current_buttons_def observed_def)

lemma tick_TermEnd:
  assumes "decide (buttons pg (observed st)) st = TermEnd"
  shows "tick pg prefs st =
     (let choice = py_or (prefs ''term_end'') ''3-6 months away'';
          st1 = answer_and_log pg choice
                  (\<lambda>how. ''Answered 'term end' -> '' @ choice @ '' via '' @ how)
                  (do_call Observe st)
      in (True, st1\<lparr>answered := (answered st1)(''term_end'' \<mapsto> True)\<rparr>))"
  using assms
  by (simp add: tick_def observe_current_buttons_def observed_def)

lemma tick_NextFreeText:
  assumes "decide (buttons pg (observed st)) st = NextFreeText t rest"
  shows "tick pg prefs st =
     (True, log_event ''user'' ''You'' t
        (snd (type_and_log pg t ((do_call Observe st)\<lparr>pending_steps := rest\<rparr>))))"
  using assms
  by (simp add: tick_def observe_current_buttons_def observed_def split: prod.splits)

lemma nothing_visible:
  "next_progress PROGRESS_BUTTONS [] = None"
  "pop_matching_click [] ss = None"
proof -
  show "next_progress PROGRESS_BUTTONS [] = None"
    by (simp add: PROGRESS_BUTTONS_def visible_has_def)
  show "pop_matching_click [] ss = None"
  proof (induction ss)
    case Nil
    show ?case by simp
  next
    case (Cons a ss)
    then show ?case by (cases a) (simp_all add: visible_has_def)
  qed
qed

lemma decide_nothing_visible:
  "decide [] st =
     (case pop_next_free_text (pending_steps st) of
        Some (t, rest) \<Rightarrow> NextFreeText t rest | None \<Rightarrow> Idle)"
  by (simp add: decide_def nothing_visible)

lemma decide_OccupancyI:
  assumes "next_progress PROGRESS_BUTTONS v = None"
    and "\<not> 2 \<le> card (set v \<inter> term_end_set)"
    and "answered st ''occupancy'' \<noteq> Some True"
    and "1 \<le> card (set v \<inter> occupancy_set)"
  shows "decide v st = Occupancy"
  using assms by (simp add: decide_def)

lemma tick_CheckHere:
  assumes "decide (buttons pg (observed st)) st = CheckHere"
  shows "tick pg prefs st =
     (True, answer_and_log pg ''Check here'' (\<lambda>how. ''Chose product via '' @ how)
        (do_call Observe st))"
  using assms unfolding tick_def observe_current_buttons_def observed_def
  by (simp only: prod.case decide_do_call decision.case)

lemma tick_ExplicitClick:
  assumes "decide (buttons pg (observed st)) st = ExplicitClick lab rest"
  shows "tick pg prefs st =
     (True, answer_and_log pg lab
        (\<lambda>how. ''Matched transcript choice '' @ CHR 0x27 # lab @ CHR 0x27 # '' via '' @ how)
        ((do_call Observe st)\<lparr>pending_steps := rest\<rparr>))"
  using assms by (simp add: tick_def observe_current_buttons_def observed_def)

lemma term_end_events_append:
  "transcript st' = transcript st @ [e] \<Longrightarrow>
     term_end_events st' = term_end_events st + (if is_term_end_event e then 1 else 0)"
  by (simp add: term_end_events_def)

lemma observed_ticks [simp]: "observed (st\<lparr>ticks := n\<rparr>) = observed st"
  by (simp add: observed_def)

lemma term_end_events_ticks [simp]: "term_end_events (st\<lparr>ticks := n\<rparr>) = term_end_events st"
  by (simp add: term_end_events_def)

lemma tick_term_end_events:
  "term_end_events (snd (tick pg prefs st)) =
     term_end_events st + (if decide (buttons pg (observed st)) st = TermEnd then 1 else 0)"
proof (cases "decide (buttons pg (observed st)) st")
  case (Progress np)
  have "transcript (snd (tick pg prefs st)) = transcript st @
      [\<lparr>role = ''action'', agent = ''TestingAgent'',
        content = ''Progressed via '' @ CHR 0x27 # np @ CHR 0x27 # '' using ''
                    @ fst (answer_choice pg np False (do_call Observe st))\<rparr>]"
    by (simp add: tick_Progress [OF Progress] answer_and_log_frame do_call_def)
  from term_end_events_append [OF this] Progress show ?thesis
    by (simp add: is_term_end_event_def)
next
  case TermEnd
  have "transcript (snd (tick pg prefs st)) = transcript st @
      [\<lparr>role = ''action'', agent = ''TestingAgent'',
        content = ''Answered 'term end' -> '' @ py_or (prefs ''term_end'') ''3-6 months away''
          @ '' via '' @ fst (answer_choice pg (py_or (prefs ''term_end'') ''3-6 months away'')
                            False (do_call Observe st))\<rparr>]"
    by (simp add: tick_TermEnd [OF TermEnd] Let_def answer_and_log_frame do_call_def)
  from term_end_events_append [OF this] TermEnd show ?thesis
    by (simp add: is_term_end_event_def)
next
  case Occupancy
  have "transcript (snd (tick pg prefs st)) = transcript st @
      [\<lparr>role = ''action'', agent = ''TestingAgent'',
        content = ''Answered 'occupancy' -> '' @ py_or (prefs ''occupancy'') ''Live in it''
          @ '' via '' @ fst (answer_choice pg (py_or (prefs ''occupancy'') ''Live in it'')
                            False (do_call Observe st))\<rparr>]"
    by (simp add: tick_Occupancy [OF Occupancy] Let_def answer_and_log_frame do_call_def)
  from term_end_events_append [OF this] Occupancy show ?thesis
    by (simp add: is_term_end_event_def)
next
  case CheckHere
  have "transcript (snd (tick pg prefs st)) = transcript st @
      [\<lparr>role = ''action'', agent = ''TestingAgent'',
        content = ''Chose product via ''
          @ fst (answer_choice pg ''Check here'' False (do_call Observe st))\<rparr>]"
    by (simp add: tick_CheckHere [OF CheckHere] answer_and_log_frame do_call_def)
  from term_end_events_append [OF this] CheckHere show ?thesis
    by (simp add: is_term_end_event_def)
next
  case (ExplicitClick lab rest)
  have "transcript (snd (tick pg prefs st)) = transcript st @
      [\<lparr>role = ''action'', agent = ''TestingAgent'',
        content = ''Matched transcript choice '' @ CHR 0x27 # lab @ CHR 0x27 # '' via ''
          @ fst (answer_choice pg lab False ((do_call Observe st)\<lparr>pending_steps := rest\<rparr>))\<rparr>]"
    by (simp add: tick_ExplicitClick [OF ExplicitClick] answer_and_log_frame do_call_def)
  from term_end_events_append [OF this] ExplicitClick show ?thesis
    by (simp add: is_term_end_event_def)
next
  case (NextFreeText t rest)
  have "transcript (snd (tick pg prefs st)) = transcript st @
      [\<lparr>role = ''user'', agent = ''You'', content = t\<rparr>]"
    by (simp add: tick_NextFreeText [OF NextFreeText] type_and_log_def log_event_def do_call_def)
  from term_end_events_append [OF this] NextFreeText show ?thesis
    by (simp add: is_term_end_event_def)
next
  case Idle
  obtain v' st' where s: "scroll_reobserve pg 3 (buttons pg (observed st)) (do_call Observe st) = (v', st')"
    by (cases "scroll_reobserve pg 3 (buttons pg (observed st)) (do_call Observe st)")
  from scroll_reobserve_frame [OF s] have "transcript st' = transcript st"
    by (simp add: do_call_def)
  then have "transcript (snd (tick pg prefs st)) = transcript st @
      [\<lparr>role = ''info'', agent = ''TestingAgent'',
        content = ''No matching buttons or text left; pausing.''\<rparr>]"
    by (simp add: tick_Idle [OF Idle] s log_event_def)
  from term_end_events_append [OF this] Idle show ?thesis
    by (simp add: is_term_end_event_def)
qed

lemma tick_TermEnd_effect:
  assumes "decide (buttons pg (observed st)) st = TermEnd"
  shows "fst (tick pg prefs st) = True"
    and "answered (snd (tick pg prefs st)) ''term_end'' = Some True"
  using tick_TermEnd [OF assms, of prefs] by (simp_all add: Let_def)

lemma tick_Progress_effect:
  assumes "decide (buttons pg (observed st)) st = Progress np"
  shows "fst (tick pg prefs st) = True"
    and "answered (snd (tick pg prefs st)) = answered st"
    and "observed (snd (tick pg prefs st)) = Suc (observed st)"
  using tick_Progress [OF assms, of prefs]
  by (simp_all add: answer_and_log_frame observed_def do_call_def)

lemma main_loop_Suc:
  "main_loop pg prefs (Suc n) st =
     (if fst (tick pg prefs (st\<lparr>ticks := Suc (ticks st)\<rparr>))
      then main_loop pg prefs n (snd (tick pg prefs (st\<lparr>ticks := Suc (ticks st)\<rparr>)))
      else snd (tick pg prefs (st\<lparr>ticks := Suc (ticks st)\<rparr>)))"
  by (cases "tick pg prefs (st\<lparr>ticks := Suc (ticks st)\<rparr>)") simp

lemma main_loop_answered_mono:
  "answered st k = Some True \<Longrightarrow> answered (main_loop pg prefs n st) k = Some True"
proof (induction n arbitrary: st)
  case 0
  then show ?case by simp
next
  case (Suc n)
  let ?s = "st\<lparr>ticks := Suc (ticks st)\<rparr>"
  from Suc.prems have "answered ?s k = Some True" by simp
  then have a: "answered (snd (tick pg prefs ?s)) k = Some True" by (rule tick_answered_mono)
  show ?case
  proof (cases "fst (tick pg prefs ?s)")
    case True
    then have "main_loop pg prefs (Suc n) st = main_loop pg prefs n (snd (tick pg prefs ?s))"
      by (simp only: main_loop_Suc if_True if_False)
    with Suc.IH [OF a] show ?thesis by simp
  next
    case False
    then have "main_loop pg prefs (Suc n) st = snd (tick pg prefs ?s)"
      by (simp only: main_loop_Suc if_True if_False)
    with a show ?thesis by simp
  qed
qed

lemma main_loop_answered_no_event:
  "answered st ''term_end'' = Some True \<Longrightarrow>
     term_end_events (main_loop pg prefs n st) = term_end_events st"
proof (induction n arbitrary: st)
  case 0
  then show ?case by simp
next
  case (Suc n)
  let ?s = "st\<lparr>ticks := Suc (ticks st)\<rparr>"
  from Suc.prems have p: "answered ?s ''term_end'' = Some True" by simp
  then have "decide (buttons pg (observed ?s)) ?s \<noteq> TermEnd"
    using decide_TermEnd by blast
  then have e: "term_end_events (snd (tick pg prefs ?s)) = term_end_events st"
    by (simp add: tick_term_end_events)
  from p have a: "answered (snd (tick pg prefs ?s)) ''term_end'' = Some True"
    by (rule tick_answered_mono)
  show ?case
  proof (cases "fst (tick pg prefs ?s)")
    case True
    then have "main_loop pg prefs (Suc n) st = main_loop pg prefs n (snd (tick pg prefs ?s))"
      by (simp only: main_loop_Suc if_True if_False)
    with Suc.IH [OF a] e show ?thesis by simp
  next
    case False
    then have "main_loop pg prefs (Suc n) st = snd (tick pg prefs ?s)"
      by (simp only: main_loop_Suc if_True if_False)
    with e show ?thesis by simp
  qed
qed

lemma main_loop_at_most_one_event:
  "term_end_events (main_loop pg prefs n st) \<le> term_end_events st + 1"
proof (induction n arbitrary: st)
  case 0
  show ?case by simp
next
  case (Suc n)
  let ?s = "st\<lparr>ticks := Suc (ticks st)\<rparr>"
  let ?d = "decide (buttons pg (observed ?s)) ?s"
  show ?case
  proof (cases "fst (tick pg prefs ?s)")
    case False
    then have "main_loop pg prefs (Suc n) st = snd (tick pg prefs ?s)"
      by (simp only: main_loop_Suc if_True if_False)
    then show ?thesis by (simp add: tick_term_end_events)
  next
    case True
    then have m: "main_loop pg prefs (Suc n) st = main_loop pg prefs n (snd (tick pg prefs ?s))"
      by (simp only: main_loop_Suc if_True if_False)
    show ?thesis
    proof (cases "?d = TermEnd")
      case True
      then have "answered (snd (tick pg prefs ?s)) ''term_end'' = Some True"
        by (rule tick_TermEnd_effect)
      then have "term_end_events (main_loop pg prefs n (snd (tick pg prefs ?s)))
          = term_end_events (snd (tick pg prefs ?s))"
        by (rule main_loop_answered_no_event)
      with m show ?thesis by (simp add: tick_term_end_events)
    next
      case False
      then have "term_end_events (snd (tick pg prefs ?s)) = term_end_events st"
        by (simp add: tick_term_end_events)
      with Suc.IH [of "snd (tick pg prefs ?s)"] m show ?thesis by simp
    qed
  qed
qed

lemma tick_ticks: "ticks (snd (tick pg prefs st)) = ticks st"
proof (cases "decide (buttons pg (observed st)) st")
  case (Progress np)
  then show ?thesis by (simp add: tick_Progress answer_and_log_frame do_call_def)
next
  case TermEnd
  then show ?thesis by (simp add: tick_TermEnd Let_def answer_and_log_frame do_call_def)
next
  case Occupancy
  then show ?thesis by (simp add: tick_Occupancy Let_def answer_and_log_frame do_call_def)
next
  case CheckHere
  then show ?thesis by (simp add: tick_CheckHere answer_and_log_frame do_call_def)
next
  case (ExplicitClick lab rest)
  then show ?thesis by (simp add: tick_ExplicitClick answer_and_log_frame do_call_def)
next
  case (NextFreeText t rest)
  then show ?thesis by (simp add: tick_NextFreeText type_and_log_def log_event_def do_call_def)
next
  case Idle
  obtain v' st' where s: "scroll_reobserve pg 3 (buttons pg (observed st)) (do_call Observe st) = (v', st')"
    by (cases "scroll_reobserve pg 3 (buttons pg (observed st)) (do_call Observe st)")
  from scroll_reobserve_frame [OF s] have "ticks st' = ticks st" by (simp add: do_call_def)
  then show ?thesis by (simp add: tick_Idle [OF Idle] s log_event_def)
qed

lemma main_loop_ticks: "ticks (main_loop pg prefs n st) \<le> ticks st + n"
proof (induction n arbitrary: st)
  case 0
  show ?case by simp
next
  case (Suc n)
  let ?s' = "snd (tick pg prefs (st\<lparr>ticks := Suc (ticks st)\<rparr>))"
  have t: "ticks ?s' = Suc (ticks st)" by (simp add: tick_ticks)
  from Suc.IH [of ?s'] t show ?case by (simp add: main_loop_Suc del: main_loop.simps)
qed

lemma main_loop_progress_ticks:
  assumes "\<forall>j. next_progress PROGRESS_BUTTONS (buttons pg j) \<noteq> None"
  shows "ticks (main_loop pg prefs n st) = ticks st + n"
proof (induction n arbitrary: st)
  case 0
  show ?case by simp
next
  case (Suc n)
  let ?s = "st\<lparr>ticks := Suc (ticks st)\<rparr>"
  let ?s' = "snd (tick pg prefs ?s)"
  have t: "ticks ?s' = Suc (ticks st)" by (simp add: tick_ticks)
  from assms obtain np where "next_progress PROGRESS_BUTTONS (buttons pg (observed ?s)) = Some np"
    by blast
  then have "decide (buttons pg (observed ?s)) ?s = Progress np"
    by (simp only: decide_Progress_iff)
  then have "fst (tick pg prefs ?s) = True" by (rule tick_Progress_effect)
  then have "main_loop pg prefs (Suc n) st = main_loop pg prefs n ?s'"
    by (simp only: main_loop_Suc if_True)
  with Suc.IH [of ?s'] t show ?case by simp
qed

lemma consent_ticks: "ticks (consent pg labels st) = ticks st"
  by (induction labels arbitrary: st) (simp_all add: Let_def log_event_def do_call_def)

lemma end_of_run_summary_eq:
  "end_of_run_summary w st =
     (if skip_llm w then ''LLM summary skipped.''
      else (case summary_result w of Inr msg \<Rightarrow> msg | Inl e \<Rightarrow> ''Summary failed: '' @ e),
      if skip_llm w then st else do_call RunSummary st)"
  by (simp add: end_of_run_summary_def split: sum.splits)

lemma open_app_ok:
  assumes "launch_ok w" and "goto_ok w"
  shows "fst (open_app w st) = None" and "ticks (snd (open_app w st)) = ticks st"
  using assms by (simp_all add: open_app_def Let_def consent_ticks log_event_def do_call_def)

lemma finish_run_frame:
  "ticks (finish_run w st) = ticks st"
  "\<exists>cs. calls (finish_run w st) = calls st @ cs @ [RenderReport, Close, AClose]
        \<and> cs = (if skip_llm w then [] else [RunSummary]) @ [LogSummary]"
  "transcript (finish_run w st) = transcript st @
     [\<lparr>role = ''assistant'', agent = ''TestingAgent'',
       content = (if skip_llm w then ''LLM summary skipped.''
                  else (case summary_result w of
                          Inr msg \<Rightarrow> msg | Inl e \<Rightarrow> ''Summary failed: '' @ e))\<rparr>]"
  by (simp_all add: finish_run_def end_of_run_summary_eq Let_def log_event_def do_call_def)

lemma run_scenario1_completes:
  assumes "build_steps_from_excel rd p = Inr (manual_convo, ctx)"
    and "launch_ok w" and "goto_ok w"
  shows "run_scenario1 rd p w =
     (None, finish_run w (main_loop (ui w) (choice_preferences ctx Map.empty) 80
        (snd (open_app w (initial_state manual_convo ctx)))))"
proof -
  from open_app_ok(1) [OF assms(2,3)]
  have "open_app w (initial_state manual_convo ctx)
      = (None, snd (open_app w (initial_state manual_convo ctx)))"
    by (simp add: prod_eq_iff)
  then obtain st4 where o: "open_app w (initial_state manual_convo ctx) = (None, st4)" ..
  show ?thesis
    by (simp add: run_scenario1_def assms(1) o Let_def)
qed

lemma run_scenario1_aborts:
  assumes "build_steps_from_excel rd p = Inr (manual_convo, ctx)"
    and "\<not> launch_ok w \<or> \<not> goto_ok w"
  shows "fst (run_scenario1 rd p w) = Some (if \<not> launch_ok w then LaunchError else NavigationError)"
    and "calls (snd (run_scenario1 rd p w)) = (if \<not> launch_ok w then [Launch] else [Launch, Goto])"
  using assms
  by (auto simp: run_scenario1_def open_app_def Let_def do_call_def initial_state_def)


lemma scenario_build:
  "build_steps_from_excel scenario_readers scenario_csv =
     Inr ([Click ''Live in it'', FreeText ''looking good''],
          [\<lparr>role = ''assistant'', agent = ''Compare'', content = ''Welcome''\<rparr>,
           \<lparr>role = ''user'', agent = ''Anant'', content = ''Live in it''\<rparr>,
           \<lparr>role = ''user'', agent = ''Anant'', content = ''looking good''\<rparr>])"
  by code_simp

section \<open>Action Compiler: rows without a message\<close>

lemma row_steps_length: "length (row_steps row) \<le> (if lower (strip (fst row)) = ''anant'' then 1 else 0)"
  by (simp add: row_steps_def Let_def split: option.splits)

lemma steps_le_human_rows:
  "length (concat (map row_steps rows)) \<le> length (filter (\<lambda>r. lower (strip (fst r)) = ''anant'') rows)"
proof (induction rows)
  case Nil
  show ?case by simp
next
  case (Cons row rows)
  from row_steps_length [of row] Cons show ?case by (simp split: if_splits)
qed

lemma row_steps_empty_message: "strip (snd row) = [] \<Longrightarrow> row_steps row = []"
  by (simp add: row_steps_def)

text \<open>
  Claim C10. A row whose message is empty after stripping yields no step, whoever speaks,
  and still yields its context turn: the context turns are the rows' turns, one per
  row and in order, the steps are the rows' steps in order, there are never more steps
  than rows of the human participant, and there can be fewer.
\<close>

theorem empty_message_no_action:
  "(strip (snd row) = [] \<longrightarrow> row_steps row = [])
   \<and> build_steps_from_rows rows ([], []) = (concat (map row_steps rows), map row_context rows)
   \<and> length (snd (build_steps_from_rows rows ([], []))) = length rows
   \<and> length (fst (build_steps_from_rows rows ([], [])))
        \<le> length (filter (\<lambda>r. lower (strip (fst r)) = ''anant'') rows)
   \<and> (\<exists>rs. length (fst (build_steps_from_rows rs ([], [])))
          < length (filter (\<lambda>r. lower (strip (fst r)) = ''anant'') rs))"
proof -
  have a: "strip (snd row) = [] \<longrightarrow> row_steps row = []"
    by (simp add: row_steps_empty_message)
  have b: "build_steps_from_rows rows ([], []) = (concat (map row_steps rows), map row_context rows)"
    by (simp add: build_steps_from_rows_eq)
  have c: "length (snd (build_steps_from_rows rows ([], []))) = length rows"
    by (simp add: b)
  have d: "length (fst (build_steps_from_rows rows ([], [])))
        \<le> length (filter (\<lambda>r. lower (strip (fst r)) = ''anant'') rows)"
    by (simp add: b steps_le_human_rows)
  have e1: "lower (strip ''Anant'') = ''anant''" by code_simp
  have e2: "strip '''' = []" by code_simp
  have "length (fst (build_steps_from_rows [(''Anant'', '''')] ([], [])))
          < length (filter (\<lambda>r. lower (strip (fst r)) = ''anant'') [(''Anant'', '''')])"
    by (simp add: row_steps_def e1 e2)
  then have e: "\<exists>rs. length (fst (build_steps_from_rows rs ([], [])))
          < length (filter (\<lambda>r. lower (strip (fst r)) = ''anant'') rs)" ..
  from a b c d e show ?thesis by blast
qed

theorem empty_message_no_action_witness:
  "strip (snd (''ANANT'', ''  '')) = [] \<and> row_steps (''ANANT'', ''  '') = []
   \<and> length (snd (build_steps_from_rows [(''Compare'', ''Welcome''), (''ANANT'', ''  '')] ([], []))) = 2
   \<and> fst (build_steps_from_rows [(''Compare'', ''Welcome''), (''ANANT'', ''  '')] ([], [])) = []"
proof -
  have h: "strip (snd (''ANANT'', ''  '')) = []" by code_simp
  have r: "row_steps (''Compare'', ''Welcome'') = []" by code_simp
  note t = empty_message_no_action [of "(''ANANT'', ''  '')" "[(''Compare'', ''Welcome''), (''ANANT'', ''  '')]"]
  from t h have s: "row_steps (''ANANT'', ''  '') = []" by blast
  from t have l: "length (snd (build_steps_from_rows [(''Compare'', ''Welcome''), (''ANANT'', ''  '')] ([], []))) = 2"
    by simp
  from t have "fst (build_steps_from_rows [(''Compare'', ''Welcome''), (''ANANT'', ''  '')] ([], []))
     = concat (map row_steps [(''Compare'', ''Welcome''), (''ANANT'', ''  '')])"
    by simp
  with r s have f: "fst (build_steps_from_rows [(''Compare'', ''Welcome''), (''ANANT'', ''  '')] ([], [])) = []"
    by simp
  from h s l f show ?thesis by blast
qed

section \<open>Action Compiler: the first matching pattern decides\<close>

lemma row_steps_human:
  assumes "lower (strip (fst row)) = ''anant''" and "strip (snd row) \<noteq> []"
  shows "row_steps row =
     (case first_match click_map (strip (snd row)) of
        Some label \<Rightarrow> [Click label] | None \<Rightarrow> [FreeText (strip (snd row))])"
  using assms by (simp add: row_steps_def Let_def)

lemma lower_eq_strip_nonempty:
  assumes "lower m' = lower m" and "strip m \<noteq> []"
  shows "strip m' \<noteq> []" and "first_match tbl (strip m') = first_match tbl (strip m)"
proof -
  have eq: "lower (strip m') = lower (strip m)"
    using assms(1) by (simp only: strip_lower [symmetric])
  show "strip m' \<noteq> []"
  proof
    assume "strip m' = []"
    with eq have "lower (strip m) = []" by (simp add: lower_def)
    with assms(2) show False by (simp add: lower_def)
  qed
  have "first_match tbl (strip m') = first_match tbl (lower (strip m'))"
    by (simp only: first_match_lower)
  also have "\<dots> = first_match tbl (lower (strip m))" by (simp only: eq)
  also have "\<dots> = first_match tbl (strip m)" by (simp only: first_match_lower)
  finally show "first_match tbl (strip m') = first_match tbl (strip m)" .
qed

text \<open>
  Claim C6, as amended. For a row of the human participant whose message is not empty
  after stripping: the patterns are tried in table order and the first that matches
  decides, the step being a click with that entry's label; a row that matches some
  pattern yields a click with a label of the table and so no free text; a row that
  matches none yields the free text of the stripped message. The click does not depend
  on the casing of the message, and no step depends on whitespace around it.
\<close>

theorem click_first_match_wins:
  assumes human: "lower (strip (fst row)) = ''anant''" and msg: "strip (snd row) \<noteq> []"
  shows "(\<forall>i < length click_map.
            re_search (fst (click_map ! i)) (strip (snd row))
            \<and> (\<forall>j < i. \<not> re_search (fst (click_map ! j)) (strip (snd row)))
          \<longrightarrow> row_steps row = [Click (snd (click_map ! i))])
       \<and> ((\<exists>i < length click_map. re_search (fst (click_map ! i)) (strip (snd row)))
          \<longrightarrow> (\<exists>label \<in> snd ` set click_map. row_steps row = [Click label]))
       \<and> ((\<forall>i < length click_map. \<not> re_search (fst (click_map ! i)) (strip (snd row)))
          \<longrightarrow> row_steps row = [FreeText (strip (snd row))])
       \<and> (\<forall>m' label. lower m' = lower (snd row) \<and> row_steps row = [Click label]
          \<longrightarrow> row_steps (fst row, m') = [Click label])
       \<and> (\<forall>pre post. (\<forall>c \<in> set pre. is_space c) \<and> (\<forall>c \<in> set post. is_space c)
          \<longrightarrow> row_steps (fst row, pre @ snd row @ post) = row_steps row)"
proof -
  note rs = row_steps_human [OF human msg]
  have a: "\<forall>i < length click_map.
            re_search (fst (click_map ! i)) (strip (snd row))
            \<and> (\<forall>j < i. \<not> re_search (fst (click_map ! j)) (strip (snd row)))
          \<longrightarrow> row_steps row = [Click (snd (click_map ! i))]"
  proof (intro allI impI)
    fix i assume "i < length click_map"
      and "re_search (fst (click_map ! i)) (strip (snd row))
            \<and> (\<forall>j < i. \<not> re_search (fst (click_map ! j)) (strip (snd row)))"
    then have "first_match click_map (strip (snd row)) = Some (snd (click_map ! i))"
      unfolding first_match_Some_iff by blast
    with rs show "row_steps row = [Click (snd (click_map ! i))]" by simp
  qed
  have b: "(\<exists>i < length click_map. re_search (fst (click_map ! i)) (strip (snd row)))
          \<longrightarrow> (\<exists>label \<in> snd ` set click_map. row_steps row = [Click label])"
  proof
    assume "\<exists>i < length click_map. re_search (fst (click_map ! i)) (strip (snd row))"
    then have "first_match click_map (strip (snd row)) \<noteq> None"
      unfolding first_match_None_iff by blast
    then obtain label where f: "first_match click_map (strip (snd row)) = Some label" by blast
    then obtain i where "i < length click_map" "label = snd (click_map ! i)"
      unfolding first_match_Some_iff by blast
    then have "label \<in> snd ` set click_map" by (metis nth_mem imageI)
    moreover from rs f have "row_steps row = [Click label]" by simp
    ultimately show "\<exists>label \<in> snd ` set click_map. row_steps row = [Click label]" ..
  qed
  have c: "(\<forall>i < length click_map. \<not> re_search (fst (click_map ! i)) (strip (snd row)))
          \<longrightarrow> row_steps row = [FreeText (strip (snd row))]"
  proof
    assume "\<forall>i < length click_map. \<not> re_search (fst (click_map ! i)) (strip (snd row))"
    then have "first_match click_map (strip (snd row)) = None"
      unfolding first_match_None_iff .
    with rs show "row_steps row = [FreeText (strip (snd row))]" by simp
  qed
  have d: "\<forall>m' label. lower m' = lower (snd row) \<and> row_steps row = [Click label]
          \<longrightarrow> row_steps (fst row, m') = [Click label]"
  proof (intro allI impI, elim conjE)
    fix m' label
    assume l: "lower m' = lower (snd row)" and r: "row_steps row = [Click label]"
    note e = lower_eq_strip_nonempty(1) [OF l msg] lower_eq_strip_nonempty(2) [OF l msg, of click_map]
    from r rs have "first_match click_map (strip (snd row)) = Some label"
      by (simp split: option.splits)
    with e human show "row_steps (fst row, m') = [Click label]"
      by (simp add: row_steps_def Let_def)
  qed
  have e: "\<forall>pre post. (\<forall>c \<in> set pre. is_space c) \<and> (\<forall>c \<in> set post. is_space c)
          \<longrightarrow> row_steps (fst row, pre @ snd row @ post) = row_steps row"
    by (simp add: row_steps_def Let_def strip_pad)
  from a b c d e show ?thesis by blast
qed


theorem click_first_match_wins_witness:
  "lower (strip (fst (''ANANT'', '' ok, 3-6   MONTHS away ''))) = ''anant''
   \<and> strip (snd (''ANANT'', '' ok, 3-6   MONTHS away '')) \<noteq> []
   \<and> row_steps (''ANANT'', '' ok, 3-6   MONTHS away '') = [Click ''3-6 months away'']
   \<and> row_steps (''ANANT'', '' ok, 3-6   months AWAY '') = [Click ''3-6 months away'']"
proof -
  let ?row = "(''ANANT'', '' ok, 3-6   MONTHS away '')"
  have h1: "lower (strip (fst ?row)) = ''anant''" by code_simp
  have h2: "strip (snd ?row) \<noteq> []" by code_simp
  note t = click_first_match_wins [OF h1 h2]
  have i: "(3::nat) < length click_map" by (simp add: click_map_def)
  have m3: "re_search (fst (click_map ! 3)) (strip (snd ?row))" by code_simp
  have m0: "\<not> re_search (fst (click_map ! 0)) (strip (snd ?row))" by code_simp
  have m1: "\<not> re_search (fst (click_map ! 1)) (strip (snd ?row))" by code_simp
  have m2: "\<not> re_search (fst (click_map ! 2)) (strip (snd ?row))" by code_simp
  have lt: "j = 0 \<or> j = 1 \<or> j = 2" if "j < 3" for j :: nat using that by arith
  have before: "\<forall>j < 3. \<not> re_search (fst (click_map ! j)) (strip (snd ?row))"
    using m0 m1 m2 lt by blast
  have l: "snd (click_map ! 3) = ''3-6 months away''" by (simp add: click_map_def)
  from t i m3 before have "row_steps ?row = [Click (snd (click_map ! 3))]" by blast
  with l have r1: "row_steps ?row = [Click ''3-6 months away'']" by simp
  have lo: "lower '' ok, 3-6   months AWAY '' = lower (snd ?row)" by code_simp
  from t have "\<forall>m' label. lower m' = lower (snd ?row) \<and> row_steps ?row = [Click label]
          \<longrightarrow> row_steps (fst ?row, m') = [Click label]" by blast
  with lo r1 have "row_steps (fst ?row, '' ok, 3-6   months AWAY '') = [Click ''3-6 months away'']"
    by blast
  then have r2: "row_steps (''ANANT'', '' ok, 3-6   months AWAY '') = [Click ''3-6 months away'']"
    by simp
  from h1 h2 r1 r2 show ?thesis by blast
qed

text \<open>
  Against claim C6 as stated: a row of the human participant with an empty message
  matches no pattern and yields no step at all, and the free text of a padded message
  is the stripped message.
\<close>

theorem human_row_without_free_text:
  "lower (strip (fst (''Anant'', ''''))) = ''anant''
   \<and> first_match click_map (snd (''Anant'', '''')) = None
   \<and> row_steps (''Anant'', '''') = []
   \<and> first_match click_map (snd (''Anant'', '' hello '')) = None
   \<and> row_steps (''Anant'', '' hello '') = [FreeText ''hello'']"
proof -
  have a: "lower (strip (fst (''Anant'', ''''))) = ''anant''" by code_simp
  have b: "first_match click_map (snd (''Anant'', '''')) = None" by code_simp
  have c: "row_steps (''Anant'', '''') = []" by code_simp
  have d: "first_match click_map (snd (''Anant'', '' hello '')) = None" by code_simp
  have e: "row_steps (''Anant'', '' hello '') = [FreeText ''hello'']" by code_simp
  from a b c d e show ?thesis by blast
qed

section \<open>Transcript Loader: the outcomes\<close>

lemma lower_names_None_iff: "lower_names cols k = None \<longleftrightarrow> k \<notin> lower ` set cols"
  by (simp add: lower_names_def map_of_eq_None_iff image_image)

lemma read_table_unsupported:
  "read_table rd ext p = Inl e \<longleftrightarrow> ext \<notin> set supported_extensions \<and> e = UnsupportedExtension ext"
  by (auto simp: read_table_def supported_extensions_def)

text \<open>
  Claim C7, as amended. The checks are made in order. The loader fails with
  \<open>FileNotFoundError\<close> exactly when the path does not exist; it fails for an unsupported
  extension exactly when the path exists and its lowered suffix is none of the supported
  ones; an exception of the chosen reader is passed on; and when the reader returns a
  table, the loader fails for missing columns exactly when the stripped and lowered
  headers lack \<open>speaker\<close> or \<open>message\<close>, and otherwise returns one row per record.
\<close>

theorem load_transcript_any_outcomes:
  "(load_transcript_any rd p = Inl FileNotFoundError \<longleftrightarrow> \<not> exists p)
   \<and> (load_transcript_any rd p = Inl (UnsupportedExtension ext)
        \<longleftrightarrow> exists p \<and> ext = lower (suffix p) \<and> ext \<notin> set supported_extensions)
   \<and> (exists p \<and> read_table rd (lower (suffix p)) p = Inr (Inl msg)
        \<longrightarrow> load_transcript_any rd p = Inl (ReaderError msg))
   \<and> (exists p \<and> read_table rd (lower (suffix p)) p = Inr (Inr df)
        \<longrightarrow> ((\<exists>cols. load_transcript_any rd p = Inl (MissingColumns cols))
               \<longleftrightarrow> ''speaker'' \<notin> lower ` strip ` set (columns df)
                   \<or> ''message'' \<notin> lower ` strip ` set (columns df))
            \<and> (''speaker'' \<in> lower ` strip ` set (columns df)
                 \<and> ''message'' \<in> lower ` strip ` set (columns df)
               \<longrightarrow> (\<exists>rows. load_transcript_any rd p = Inr rows
                      \<and> length rows = length (records df))))"
proof -
  let ?t = "read_table rd (lower (suffix p)) p"
  have a: "load_transcript_any rd p = Inl FileNotFoundError \<longleftrightarrow> \<not> exists p"
  proof (cases "exists p")
    case False
    then show ?thesis by (simp add: load_transcript_any_def)
  next
    case True
    have "load_transcript_any rd p \<noteq> Inl FileNotFoundError"
    proof (cases ?t)
      case (Inl e)
      then have "e = UnsupportedExtension (lower (suffix p))"
        by (simp add: read_table_unsupported)
      with True Inl show ?thesis by (simp add: load_transcript_any_def)
    next
      case (Inr r)
      with True show ?thesis
        by (cases r) (simp_all add: load_transcript_any_def Let_def split: option.splits)
    qed
    with True show ?thesis by simp
  qed
  have b: "load_transcript_any rd p = Inl (UnsupportedExtension ext)
        \<longleftrightarrow> exists p \<and> ext = lower (suffix p) \<and> ext \<notin> set supported_extensions"
  proof (cases "exists p")
    case False
    then show ?thesis by (simp add: load_transcript_any_def)
  next
    case True
    show ?thesis
    proof (cases ?t)
      case (Inl e)
      then have "e = UnsupportedExtension (lower (suffix p))"
        and "lower (suffix p) \<notin> set supported_extensions"
        by (simp_all add: read_table_unsupported)
      with True Inl show ?thesis by (auto simp: load_transcript_any_def)
    next
      case (Inr r)
      then have "lower (suffix p) \<in> set supported_extensions"
        using read_table_unsupported [of rd "lower (suffix p)" p]
        by (metis sum.distinct(1) sum.exhaust)
      with True Inr show ?thesis
        by (cases r) (auto simp: load_transcript_any_def Let_def split: option.splits)
    qed
  qed
  have c: "exists p \<and> ?t = Inr (Inl msg) \<longrightarrow> load_transcript_any rd p = Inl (ReaderError msg)"
    by (simp add: load_transcript_any_def)
  have d: "exists p \<and> ?t = Inr (Inr df)
        \<longrightarrow> ((\<exists>cols. load_transcript_any rd p = Inl (MissingColumns cols))
               \<longleftrightarrow> ''speaker'' \<notin> lower ` strip ` set (columns df)
                   \<or> ''message'' \<notin> lower ` strip ` set (columns df))
            \<and> (''speaker'' \<in> lower ` strip ` set (columns df)
                 \<and> ''message'' \<in> lower ` strip ` set (columns df)
               \<longrightarrow> (\<exists>rows. load_transcript_any rd p = Inr rows
                      \<and> length rows = length (records df)))"
  proof (intro impI, elim conjE)
    assume e: "exists p" and t: "?t = Inr (Inr df)"
    let ?cols = "map strip (columns df)"
    have n: "lower_names ?cols k = None \<longleftrightarrow> k \<notin> lower ` strip ` set (columns df)" for k
      by (simp add: lower_names_None_iff)
    show "((\<exists>cols. load_transcript_any rd p = Inl (MissingColumns cols))
               \<longleftrightarrow> ''speaker'' \<notin> lower ` strip ` set (columns df)
                   \<or> ''message'' \<notin> lower ` strip ` set (columns df))
            \<and> (''speaker'' \<in> lower ` strip ` set (columns df)
                 \<and> ''message'' \<in> lower ` strip ` set (columns df)
               \<longrightarrow> (\<exists>rows. load_transcript_any rd p = Inr rows
                      \<and> length rows = length (records df)))"
      using e t n [of "''speaker''"] n [of "''message''"]
      by (cases "lower_names ?cols ''speaker''"; cases "lower_names ?cols ''message''")
         (simp_all add: load_transcript_any_def Let_def)
  qed
  from a b c d show ?thesis by blast
qed


theorem load_transcript_any_outcomes_witness:
  "exists scenario_csv
   \<and> read_table scenario_readers (lower (suffix scenario_csv)) scenario_csv
       = Inr (Inr scenario_table)
   \<and> ''speaker'' \<in> lower ` strip ` set (columns scenario_table)
   \<and> ''message'' \<in> lower ` strip ` set (columns scenario_table)
   \<and> (\<exists>rows. load_transcript_any scenario_readers scenario_csv = Inr rows \<and> length rows = 3)"
proof -
  have e: "exists scenario_csv" by (simp add: scenario_csv_def)
  have t: "read_table scenario_readers (lower (suffix scenario_csv)) scenario_csv
       = Inr (Inr scenario_table)"
    by code_simp
  have s1: "lower (strip '' speaker'') = ''speaker''" by code_simp
  have s2: "lower (strip ''MESSAGE'') = ''message''" by code_simp
  have c: "columns scenario_table = ['' speaker'', ''Note'', ''MESSAGE'']"
    by (simp add: scenario_table_def)
  have sp: "''speaker'' \<in> lower ` strip ` set (columns scenario_table)"
    unfolding c using s1 by simp
  have ms: "''message'' \<in> lower ` strip ` set (columns scenario_table)"
    unfolding c using s2 by simp
  have n: "length (records scenario_table) = 3" by (simp add: scenario_table_def)
  from load_transcript_any_outcomes [of scenario_readers scenario_csv _ _ scenario_table] e t sp ms
  have "\<exists>rows. load_transcript_any scenario_readers scenario_csv = Inr rows
      \<and> length rows = length (records scenario_table)"
    by blast
  with n have "\<exists>rows. load_transcript_any scenario_readers scenario_csv = Inr rows \<and> length rows = 3"
    by simp
  with e t sp ms show ?thesis by blast
qed

text \<open>
  Against claim C7 as stated: for a missing path of an unsupported suffix the error is
  \<open>FileNotFoundError\<close>, and an existing CSV file on which the reader raises ends in
  the reader's error, neither one of the three kinds nor a success.
\<close>

theorem missing_file_hides_unsupported_extension:
  "\<not> exists missing_txt
   \<and> lower (suffix missing_txt) \<notin> set supported_extensions
   \<and> load_transcript_any failing_readers missing_txt = Inl FileNotFoundError
   \<and> exists empty_csv
   \<and> lower (suffix empty_csv) \<in> set supported_extensions
   \<and> load_transcript_any failing_readers empty_csv = Inl (ReaderError ''EmptyDataError'')"
proof -
  have a: "\<not> exists missing_txt" by (simp add: missing_txt_def)
  have b: "lower (suffix missing_txt) \<notin> set supported_extensions" by code_simp
  have c: "load_transcript_any failing_readers missing_txt = Inl FileNotFoundError"
    by (simp add: load_transcript_any_def a)
  have d: "exists empty_csv" by (simp add: empty_csv_def)
  have e: "lower (suffix empty_csv) \<in> set supported_extensions" by code_simp
  have f: "load_transcript_any failing_readers empty_csv = Inl (ReaderError ''EmptyDataError'')"
    by code_simp
  from a b c d e f show ?thesis by blast
qed

section \<open>Semantic Judge: the short circuit\<close>

text \<open>
  Claim C3. When either text is empty the result is \<open>(False, 0.0)\<close> and no text is
  sent to the embedding collaborator. Otherwise, the collaborator being available, each
  text is embedded once, the score is the cosine similarity of the two vectors, and the
  verdict is \<open>score >= threshold\<close>. In particular for the empty text against
  \<open>anything\<close> at threshold 0.8.
\<close>

theorem semantic_agreement_short_circuit:
  "(text_a = [] \<or> text_b = []
      \<longrightarrow> semantic_agreement emb text_a text_b threshold = (Inr (False, 0), []))
   \<and> (text_a \<noteq> [] \<and> text_b \<noteq> [] \<and> available emb
      \<longrightarrow> semantic_agreement emb text_a text_b threshold =
          (Inr (threshold \<le> cosine_similarity emb (embed_query emb text_a) (embed_query emb text_b),
                cosine_similarity emb (embed_query emb text_a) (embed_query emb text_b)),
           [text_a, text_b]))
   \<and> semantic_agreement emb [] ''anything'' (8 / 10) = (Inr (False, 0), [])"
  by (simp add: semantic_agreement_def Let_def)

theorem semantic_agreement_short_circuit_witness:
  "semantic_agreement same_vector_embeddings ''in 24 hours'' [] (85 / 100) = (Inr (False, 0), [])
   \<and> semantic_agreement same_vector_embeddings ''in 24 hours'' ''after 1 day'' (85 / 100)
       = (Inr (True, 1), [''in 24 hours'', ''after 1 day''])"
proof -
  have a: "available same_vector_embeddings" by (simp add: same_vector_embeddings_def)
  have c: "cosine_similarity same_vector_embeddings
             (embed_query same_vector_embeddings ''in 24 hours'')
             (embed_query same_vector_embeddings ''after 1 day'') = 1"
    by (simp add: same_vector_embeddings_def)
  from semantic_agreement_short_circuit [of "''in 24 hours''" "[]" same_vector_embeddings "85 / 100"]
  have s1: "semantic_agreement same_vector_embeddings ''in 24 hours'' [] (85 / 100) = (Inr (False, 0), [])"
    by blast
  from semantic_agreement_short_circuit [of "''in 24 hours''" "''after 1 day''" same_vector_embeddings "85 / 100"] a
  have "semantic_agreement same_vector_embeddings ''in 24 hours'' ''after 1 day'' (85 / 100) =
          (Inr (85 / 100 \<le> cosine_similarity same_vector_embeddings
                  (embed_query same_vector_embeddings ''in 24 hours'')
                  (embed_query same_vector_embeddings ''after 1 day''),
                cosine_similarity same_vector_embeddings
                  (embed_query same_vector_embeddings ''in 24 hours'')
                  (embed_query same_vector_embeddings ''after 1 day'')),
           [''in 24 hours'', ''after 1 day''])"
    by simp
  then have s2: "semantic_agreement same_vector_embeddings ''in 24 hours'' ''after 1 day'' (85 / 100)
       = (Inr (True, 1), [''in 24 hours'', ''after 1 day''])"
    by (simp only: c) simp
  from s1 s2 show ?thesis by blast
qed

section \<open>Rule F: recovery\<close>

text \<open>
  Claim C5, at an input where the code departs from it. Nothing is visible at the first
  observation and nothing is pending, so no rule applies; the first scroll reveals
  \<open>Continue\<close>. The loop still logs the idle event and ends, after one iteration and two
  observations.
\<close>

theorem idle_stop_after_reveal:
  "decide (buttons reveal_page 0) (initial_state [] []) = Idle
   \<and> buttons reveal_page 1 = [''Continue'']
   \<and> transcript (main_loop reveal_page Map.empty 80 (initial_state [] []))
       = [\<lparr>role = ''info'', agent = ''TestingAgent'',
           content = ''No matching buttons or text left; pausing.''\<rparr>]
   \<and> calls (main_loop reveal_page Map.empty 80 (initial_state [] [])) = [Observe, Scroll, Observe]
   \<and> ticks (main_loop reveal_page Map.empty 80 (initial_state [] [])) = 1"
proof -
  let ?st = "(initial_state [] [])\<lparr>ticks := Suc (ticks (initial_state [] []))\<rparr>"
  have b0: "buttons reveal_page 0 = []" and b1: "buttons reveal_page 1 = [''Continue'']"
    by (simp_all add: reveal_page_def)
  have np: "next_progress PROGRESS_BUTTONS [] = None"
    by (simp add: PROGRESS_BUTTONS_def visible_has_def)
  have d0: "decide [] st = Idle" if "pending_steps st = []" for st
    using that by (simp add: decide_def np)
  have d: "decide (buttons reveal_page 0) (initial_state [] []) = Idle"
    unfolding b0 by (rule d0) (simp add: initial_state_def)
  have o: "observed ?st = 0" by (simp add: observed_def initial_state_def)
  have "decide (buttons reveal_page (observed ?st)) ?st = Idle"
    unfolding o b0 by (rule d0) (simp add: initial_state_def)
  from tick_Idle [OF this, of Map.empty]
  have t: "tick reveal_page Map.empty ?st =
     (False, log_event ''info'' ''TestingAgent'' ''No matching buttons or text left; pausing.''
        (snd (scroll_reobserve reveal_page 3 [] (do_call Observe ?st))))"
    unfolding o b0 .
  have e: "(80::nat) = Suc 79" by simp
  have m: "main_loop reveal_page Map.empty 80 (initial_state [] []) =
      log_event ''info'' ''TestingAgent'' ''No matching buttons or text left; pausing.''
        (snd (scroll_reobserve reveal_page 3 [] (do_call Observe ?st)))"
    unfolding e by (rule main_loop_break [OF t])
  have s: "scroll_reobserve reveal_page 3 [] (do_call Observe ?st)
      = ([''Continue''], do_call Observe (do_call Scroll (do_call Observe ?st)))"
    by (simp add: numeral_3_eq_3 observe_current_buttons_def do_call_def initial_state_def
        reveal_page_def)
  have tr: "transcript (main_loop reveal_page Map.empty 80 (initial_state [] []))
       = [\<lparr>role = ''info'', agent = ''TestingAgent'',
           content = ''No matching buttons or text left; pausing.''\<rparr>]"
    unfolding m s by (simp add: log_event_def do_call_def initial_state_def)
  have cs: "calls (main_loop reveal_page Map.empty 80 (initial_state [] [])) = [Observe, Scroll, Observe]"
    unfolding m s by (simp add: log_event_def do_call_def initial_state_def)
  have tk: "ticks (main_loop reveal_page Map.empty 80 (initial_state [] [])) = 1"
    unfolding m s by (simp add: log_event_def do_call_def initial_state_def)
  from d b1 tr cs tk show ?thesis by blast
qed

section \<open>The end-to-end scenario\<close>

lemma scenario_steps:
  "build_steps_from_rows scenario_rows ([], []) =
     ([Click ''Live in it'', FreeText ''looking good''],
      [\<lparr>role = ''assistant'', agent = ''Compare'', content = ''Welcome''\<rparr>,
       \<lparr>role = ''user'', agent = ''Anant'', content = ''Live in it''\<rparr>,
       \<lparr>role = ''user'', agent = ''Anant'', content = ''looking good''\<rparr>])"
  by code_simp

lemma scenario_preferences:
  "choice_preferences (snd (build_steps_from_rows scenario_rows ([], []))) Map.empty ''occupancy''
     = Some ''Live in it''"
  by code_simp

lemma occupancy_visible:
  "next_progress PROGRESS_BUTTONS [''Live in it'', ''Rent it out''] = None"
  "\<not> 2 \<le> card (set [''Live in it'', ''Rent it out''] \<inter> term_end_set)"
  "1 \<le> card (set [''Live in it'', ''Rent it out''] \<inter> occupancy_set)"
  by code_simp+


text \<open>
  Claim C1. With the three-row transcript and a page whose first observation shows
  \<open>Live in it\<close> and \<open>Rent it out\<close> and whose later observations show nothing, the
  loop answers occupancy by Rule B (once, with the preference \<open>Live in it\<close> of the
  transcript), then types the free text \<open>looking good\<close> by Rule E, then finds nothing
  to do, scrolls three times and stops at Rule F: to the log it appends the event of the
  answer, the event of the typed text and the idle event, and nothing else, in three
  iterations. The click step \<open>Live in it\<close> stays pending.
\<close>

theorem end_to_end_scenario:
  assumes first: "buttons pg 0 = [''Live in it'', ''Rent it out'']"
    and later: "\<forall>n. buttons pg (Suc n) = []"
  shows "fst (build_steps_from_rows scenario_rows ([], []))
           = [Click ''Live in it'', FreeText ''looking good'']
     \<and> transcript (main_loop pg
           (choice_preferences (snd (build_steps_from_rows scenario_rows ([], []))) Map.empty) 80
           (initial_state (fst (build_steps_from_rows scenario_rows ([], []))) tr))
         = tr @ [\<lparr>role = ''action'', agent = ''TestingAgent'',
                  content = ''Answered 'occupancy' -> Live in it via ''
                    @ (if send_ok pg 0 then ''typed''
                       else if click_ok pg 0 then ''clicked'' else ''failed'')\<rparr>,
                 \<lparr>role = ''user'', agent = ''You'', content = ''looking good''\<rparr>,
                 \<lparr>role = ''info'', agent = ''TestingAgent'',
                  content = ''No matching buttons or text left; pausing.''\<rparr>]
     \<and> calls (main_loop pg
           (choice_preferences (snd (build_steps_from_rows scenario_rows ([], []))) Map.empty) 80
           (initial_state (fst (build_steps_from_rows scenario_rows ([], []))) tr))
         = Observe # Send ''Live in it''
             # (if send_ok pg 0 then [] else [ClickText ''Live in it''])
             @ [Observe, Send ''looking good'',
                Observe, Scroll, Observe, Scroll, Observe, Scroll, Observe]
     \<and> ticks (main_loop pg
           (choice_preferences (snd (build_steps_from_rows scenario_rows ([], []))) Map.empty) 80
           (initial_state (fst (build_steps_from_rows scenario_rows ([], []))) tr)) = 3
     \<and> pending_steps (main_loop pg
           (choice_preferences (snd (build_steps_from_rows scenario_rows ([], []))) Map.empty) 80
           (initial_state (fst (build_steps_from_rows scenario_rows ([], []))) tr))
         = [Click ''Live in it'']
     \<and> answered (main_loop pg
           (choice_preferences (snd (build_steps_from_rows scenario_rows ([], []))) Map.empty) 80
           (initial_state (fst (build_steps_from_rows scenario_rows ([], []))) tr))
         = [''term_end'' \<mapsto> False, ''occupancy'' \<mapsto> True]"
proof -
  define prefs where "prefs = choice_preferences (snd (build_steps_from_rows scenario_rows ([], []))) Map.empty"
  define steps where "steps = [Click ''Live in it'', FreeText ''looking good'']"
  define how where "how = (if send_ok pg 0 then ''typed''
                       else if click_ok pg 0 then ''clicked'' else ''failed'')"
  define cs1 where "cs1 = Observe # Send ''Live in it''
             # (if send_ok pg 0 then [] else [ClickText ''Live in it''])"
  define e1 where "e1 = \<lparr>role = ''action'', agent = ''TestingAgent'',
                  content = ''Answered 'occupancy' -> Live in it via '' @ how\<rparr>"
  define e2 where "e2 = \<lparr>role = ''user'', agent = ''You'', content = ''looking good''\<rparr>"
  define e3 where "e3 = \<lparr>role = ''info'', agent = ''TestingAgent'',
                  content = ''No matching buttons or text left; pausing.''\<rparr>"
  define flags where "flags = [''term_end'' \<mapsto> False, ''occupancy'' \<mapsto> True]"
  have fs: "fst (build_steps_from_rows scenario_rows ([], [])) = steps"
    by (simp add: scenario_steps steps_def)
  have pr: "py_or (prefs ''occupancy'') ''Live in it'' = ''Live in it''"
    by (simp add: prefs_def scenario_preferences py_or_def)
  have o1: "length (filter is_observe cs1) = 1" by (simp add: cs1_def)
  have n1: "length (filter is_send cs1) = 1" by (simp add: cs1_def)
  \<comment> \<open>first tick: Rule B\<close>
  let ?s0 = "(initial_state steps tr)\<lparr>ticks := Suc (ticks (initial_state steps tr))\<rparr>"
  define s1 where "s1 = \<lparr>pending_steps = steps, answered = flags, transcript = tr @ [e1],
      calls = cs1, ticks = 1\<rparr>"
  have ob0: "observed ?s0 = 0" by (simp add: observed_def initial_state_def)
  have "answered ?s0 ''occupancy'' \<noteq> Some True" by (simp add: initial_state_def)
  with occupancy_visible(1,2) have "decide [''Live in it'', ''Rent it out''] ?s0 = Occupancy"
    using occupancy_visible(3) by (rule decide_OccupancyI)
  then have d1: "decide (buttons pg (observed ?s0)) ?s0 = Occupancy"
    by (simp only: ob0 first)
  have t1: "tick pg prefs ?s0 = (True, s1)"
    unfolding tick_Occupancy [OF d1] Let_def pr
    by (simp add: s1_def flags_def e1_def how_def cs1_def steps_def answer_and_log_def
        answer_choice_def type_and_log_def click_and_log_def do_call_def log_event_def
        initial_state_def fun_upd_twist)
  \<comment> \<open>second tick: Rule E\<close>
  let ?s1 = "s1\<lparr>ticks := Suc (ticks s1)\<rparr>"
  define s2 where "s2 = \<lparr>pending_steps = [Click ''Live in it''], answered = flags,
      transcript = tr @ [e1, e2], calls = cs1 @ [Observe, Send ''looking good''], ticks = 2\<rparr>"
  have ob1: "observed ?s1 = Suc 0" by (simp add: observed_def s1_def o1)
  have "decide [] ?s1 = NextFreeText ''looking good'' [Click ''Live in it'']"
    by (simp add: decide_nothing_visible s1_def steps_def)
  then have d2: "decide (buttons pg (observed ?s1)) ?s1
      = NextFreeText ''looking good'' [Click ''Live in it'']"
    using later by (simp only: ob1)
  have t2: "tick pg prefs ?s1 = (True, s2)"
    unfolding tick_NextFreeText [OF d2]
    by (simp add: s1_def s2_def e2_def type_and_log_def do_call_def log_event_def)
  \<comment> \<open>third tick: Rule F\<close>
  let ?s2 = "s2\<lparr>ticks := Suc (ticks s2)\<rparr>"
  define s3 where "s3 = \<lparr>pending_steps = [Click ''Live in it''], answered = flags,
      transcript = tr @ [e1, e2, e3],
      calls = cs1 @ [Observe, Send ''looking good'',
                Observe, Scroll, Observe, Scroll, Observe, Scroll, Observe], ticks = 3\<rparr>"
  have ob2: "observed ?s2 = Suc (Suc 0)" by (simp add: observed_def s2_def o1)
  have "decide [] ?s2 = Idle"
    by (simp add: decide_nothing_visible s2_def)
  then have d3: "decide (buttons pg (observed ?s2)) ?s2 = Idle"
    using later by (simp only: ob2)
  have sc: "scroll_reobserve pg 3 [] (do_call Observe ?s2) =
      ([], ?s2\<lparr>calls := calls ?s2 @ [Observe, Scroll, Observe, Scroll, Observe, Scroll, Observe]\<rparr>)"
    using later
    by (simp add: numeral_3_eq_3 observe_current_buttons_def do_call_def s2_def o1)
  have t3: "tick pg prefs ?s2 = (False, s3)"
    unfolding tick_Idle [OF d3] ob2 using later
    by (simp add: sc) (simp add: s2_def s3_def e3_def log_event_def)
  \<comment> \<open>the loop\<close>
  have e: "(80::nat) = Suc (Suc (Suc 77))" by simp
  have "main_loop pg prefs 80 (initial_state steps tr) = main_loop pg prefs (Suc (Suc 77)) s1"
    unfolding e by (rule main_loop_continue [OF t1])
  also have "\<dots> = main_loop pg prefs (Suc 77) s2" by (rule main_loop_continue [OF t2])
  also have "\<dots> = s3" by (rule main_loop_break [OF t3])
  finally have m: "main_loop pg prefs 80 (initial_state steps tr) = s3" .
  show ?thesis
    unfolding fs prefs_def [symmetric] m
    by (simp add: s3_def steps_def e1_def e2_def e3_def how_def cs1_def flags_def)
qed


theorem end_to_end_scenario_witness:
  "buttons scenario_page 0 = [''Live in it'', ''Rent it out'']
   \<and> buttons scenario_page 1 = [] \<and> buttons scenario_page 2 = []
   \<and> transcript (main_loop scenario_page
         (choice_preferences (snd (build_steps_from_rows scenario_rows ([], []))) Map.empty) 80
         (initial_state (fst (build_steps_from_rows scenario_rows ([], []))) []))
       = [\<lparr>role = ''action'', agent = ''TestingAgent'',
            content = ''Answered 'occupancy' -> Live in it via typed''\<rparr>,
          \<lparr>role = ''user'', agent = ''You'', content = ''looking good''\<rparr>,
          \<lparr>role = ''info'', agent = ''TestingAgent'',
            content = ''No matching buttons or text left; pausing.''\<rparr>]
   \<and> ticks (main_loop scenario_page
         (choice_preferences (snd (build_steps_from_rows scenario_rows ([], []))) Map.empty) 80
         (initial_state (fst (build_steps_from_rows scenario_rows ([], []))) [])) = 3"
proof -
  have first: "buttons scenario_page 0 = [''Live in it'', ''Rent it out'']"
    by (simp add: scenario_page_def)
  have later: "\<forall>n. buttons scenario_page (Suc n) = []"
    by (simp add: scenario_page_def)
  have l1: "buttons scenario_page 1 = []" and l2: "buttons scenario_page 2 = []"
    by (simp_all add: scenario_page_def)
  have s: "send_ok scenario_page 0" by (simp add: scenario_page_def)
  note t = end_to_end_scenario [OF first later, of "[]"]
  from t have "transcript (main_loop scenario_page
         (choice_preferences (snd (build_steps_from_rows scenario_rows ([], []))) Map.empty) 80
         (initial_state (fst (build_steps_from_rows scenario_rows ([], []))) []))
       = [] @ [\<lparr>role = ''action'', agent = ''TestingAgent'',
                  content = ''Answered 'occupancy' -> Live in it via ''
                    @ (if send_ok scenario_page 0 then ''typed''
                       else if click_ok scenario_page 0 then ''clicked'' else ''failed'')\<rparr>,
                 \<lparr>role = ''user'', agent = ''You'', content = ''looking good''\<rparr>,
                 \<lparr>role = ''info'', agent = ''TestingAgent'',
                  content = ''No matching buttons or text left; pausing.''\<rparr>]"
    by blast
  then have tr: "transcript (main_loop scenario_page
         (choice_preferences (snd (build_steps_from_rows scenario_rows ([], []))) Map.empty) 80
         (initial_state (fst (build_steps_from_rows scenario_rows ([], []))) []))
       = [\<lparr>role = ''action'', agent = ''TestingAgent'',
            content = ''Answered 'occupancy' -> Live in it via typed''\<rparr>,
          \<lparr>role = ''user'', agent = ''You'', content = ''looking good''\<rparr>,
          \<lparr>role = ''info'', agent = ''TestingAgent'',
            content = ''No matching buttons or text left; pausing.''\<rparr>]"
    by (simp add: s)
  from t have tk: "ticks (main_loop scenario_page
         (choice_preferences (snd (build_steps_from_rows scenario_rows ([], []))) Map.empty) 80
         (initial_state (fst (build_steps_from_rows scenario_rows ([], []))) [])) = 3"
    by blast
  from first l1 l2 tr tk show ?thesis by blast
qed

section \<open>Rule P: progress\<close>

text \<open>
  Claim C8. On a tick where some visible label contains a progress button, the tick
  goes on (no other rule fires), it answers exactly one label \<open>np\<close> of the progress
  vocabulary (typed, and clicked only when typing fails), logs one event and changes
  neither the flags nor the pending steps. When the main call to action is visible,
  as a label or inside one, \<open>np\<close> is the main call to action; otherwise it is the first
  progress button, in the order of the vocabulary, that a visible label contains.
\<close>

theorem progress_rule_prefers_cta:
  assumes "\<exists>p \<in> set PROGRESS_BUTTONS. visible_has p (buttons pg (observed st))"
  shows "\<exists>np. np \<in> set PROGRESS_BUTTONS
      \<and> (''Compare live mortgage deals'' \<in> set (buttons pg (observed st))
           \<longrightarrow> np = ''Compare live mortgage deals'')
      \<and> (list_ex (\<lambda>b. py_in ''compare live mortgage deals'' (lower b)) (buttons pg (observed st))
           \<longrightarrow> np = ''Compare live mortgage deals'')
      \<and> (\<not> list_ex (\<lambda>b. py_in ''compare live mortgage deals'' (lower b)) (buttons pg (observed st))
           \<longrightarrow> find (\<lambda>p. visible_has p (buttons pg (observed st))) PROGRESS_BUTTONS = Some np)
      \<and> fst (tick pg prefs st) = True
      \<and> calls (snd (tick pg prefs st)) =
           calls st @ Observe # Send np #
             (if send_ok pg (length (filter is_send (calls st))) then [] else [ClickText np])
      \<and> transcript (snd (tick pg prefs st)) =
           transcript st @ [\<lparr>role = ''action'', agent = ''TestingAgent'',
              content = ''Progressed via '' @ CHR 0x27 # np @ CHR 0x27 # '' using ''
                          @ fst (answer_choice pg np False (do_call Observe st))\<rparr>]
      \<and> answered (snd (tick pg prefs st)) = answered st
      \<and> pending_steps (snd (tick pg prefs st)) = pending_steps st"
proof -
  let ?v = "buttons pg (observed st)"
  let ?cta = "list_ex (\<lambda>b. py_in ''compare live mortgage deals'' (lower b)) ?v"
  from assms have "next_progress PROGRESS_BUTTONS ?v \<noteq> None"
    by (simp add: next_progress_None_iff)
  then obtain np where np: "next_progress PROGRESS_BUTTONS ?v = Some np" by blast
  then obtain p where f: "find (\<lambda>p. visible_has p ?v) PROGRESS_BUTTONS = Some p"
    and e: "np = (if ?cta then ''Compare live mortgage deals'' else p)"
    unfolding next_progress_eq by blast
  from f have "p \<in> set PROGRESS_BUTTONS" by (auto simp: find_Some_iff)
  moreover have "''Compare live mortgage deals'' \<in> set PROGRESS_BUTTONS"
    by (simp add: PROGRESS_BUTTONS_def)
  ultimately have m: "np \<in> set PROGRESS_BUTTONS" using e by simp
  have l: "lower ''Compare live mortgage deals'' = ''compare live mortgage deals''" by code_simp
  have v: "''Compare live mortgage deals'' \<in> set ?v \<longrightarrow> ?cta"
  proof
    assume "''Compare live mortgage deals'' \<in> set ?v"
    moreover have "py_in ''compare live mortgage deals'' (lower ''Compare live mortgage deals'')"
      unfolding l by (rule py_in_refl)
    ultimately show ?cta unfolding list_ex_iff by blast
  qed
  from np have "decide ?v st = Progress np" by (simp add: decide_Progress_iff)
  note t = tick_Progress [OF this, of prefs]
  have c: "calls (snd (tick pg prefs st)) =
           calls st @ Observe # Send np #
             (if send_ok pg (length (filter is_send (calls st))) then [] else [ClickText np])"
    by (simp add: t answer_and_log_calls do_call_def)
  have tr: "transcript (snd (tick pg prefs st)) =
           transcript st @ [\<lparr>role = ''action'', agent = ''TestingAgent'',
              content = ''Progressed via '' @ CHR 0x27 # np @ CHR 0x27 # '' using ''
                          @ fst (answer_choice pg np False (do_call Observe st))\<rparr>]"
    by (simp add: t answer_and_log_frame do_call_def)
  have a: "answered (snd (tick pg prefs st)) = answered st"
    by (simp add: t answer_and_log_frame do_call_def)
  have ps: "pending_steps (snd (tick pg prefs st)) = pending_steps st"
    by (simp add: t answer_and_log_frame do_call_def)
  have k: "fst (tick pg prefs st) = True" by (simp add: t)
  from m v e f k c tr a ps show ?thesis by auto
qed

theorem progress_rule_prefers_cta_witness:
  "(\<exists>p \<in> set PROGRESS_BUTTONS. visible_has p (buttons cta_page (observed (initial_state [] []))))
   \<and> find (\<lambda>p. visible_has p (buttons cta_page 0)) (tl PROGRESS_BUTTONS) = Some ''Continue''
   \<and> fst (tick cta_page Map.empty (initial_state [] [])) = True
   \<and> calls (snd (tick cta_page Map.empty (initial_state [] [])))
       = [Observe, Send ''Compare live mortgage deals'']"
proof -
  let ?st = "initial_state [] []"
  have o: "observed ?st = 0" by (simp add: observed_def initial_state_def)
  have b: "buttons cta_page n = [''Continue'', ''Compare live mortgage deals'']" for n
    by (simp add: cta_page_def)
  have h0: "visible_has ''Continue'' [''Continue'', ''Compare live mortgage deals'']" by code_simp
  have "''Continue'' \<in> set PROGRESS_BUTTONS" by (simp add: PROGRESS_BUTTONS_def)
  with h0 have h: "\<exists>p \<in> set PROGRESS_BUTTONS. visible_has p (buttons cta_page (observed ?st))"
    unfolding o b by blast
  have g: "find (\<lambda>p. visible_has p (buttons cta_page 0)) (tl PROGRESS_BUTTONS) = Some ''Continue''"
    unfolding b by code_simp
  have vis: "''Compare live mortgage deals'' \<in> set (buttons cta_page (observed ?st))"
    unfolding b by simp
  have s: "send_ok cta_page (length (filter is_send (calls ?st)))" by (simp add: cta_page_def)
  have c0: "calls ?st = []" by (simp add: initial_state_def)
  from progress_rule_prefers_cta [OF h, of Map.empty] vis
  have "fst (tick cta_page Map.empty ?st) = True
      \<and> calls (snd (tick cta_page Map.empty ?st)) =
           calls ?st @ Observe # Send ''Compare live mortgage deals'' #
             (if send_ok cta_page (length (filter is_send (calls ?st))) then []
              else [ClickText ''Compare live mortgage deals''])"
    by blast
  with s c0 have "fst (tick cta_page Map.empty ?st) = True
      \<and> calls (snd (tick cta_page Map.empty ?st)) = [Observe, Send ''Compare live mortgage deals'']"
    by simp
  with h g show ?thesis by blast
qed

section \<open>Answered flags\<close>

lemma decide_TermEndI:
  assumes "next_progress PROGRESS_BUTTONS v = None"
    and "answered st ''term_end'' \<noteq> Some True"
    and "2 \<le> card (set v \<inter> term_end_set)"
  shows "decide v st = TermEnd"
  using assms by (simp add: decide_def)

lemma main_loop_progress_only:
  assumes "\<forall>j. next_progress PROGRESS_BUTTONS (buttons pg j) \<noteq> None"
  shows "term_end_events (main_loop pg prefs n st) = term_end_events st"
proof (induction n arbitrary: st)
  case 0
  show ?case by simp
next
  case (Suc n)
  let ?s = "st\<lparr>ticks := Suc (ticks st)\<rparr>"
  from assms obtain np where "next_progress PROGRESS_BUTTONS (buttons pg (observed ?s)) = Some np"
    by blast
  then have "decide (buttons pg (observed ?s)) ?s = Progress np"
    by (simp only: decide_Progress_iff)
  then have "term_end_events (snd (tick pg prefs ?s)) = term_end_events st"
    by (simp add: tick_term_end_events)
  with Suc.IH [of "snd (tick pg prefs ?s)"] show ?case
    by (simp add: main_loop_Suc del: main_loop.simps)
qed

lemma main_loop_exactly_one:
  assumes all: "\<forall>j. 2 \<le> card (set (buttons pg j) \<inter> term_end_set)"
  shows "answered st ''term_end'' \<noteq> Some True \<Longrightarrow>
     \<exists>j < n. next_progress PROGRESS_BUTTONS (buttons pg (observed st + j)) = None \<Longrightarrow>
     term_end_events (main_loop pg prefs n st) = term_end_events st + 1"
proof (induction n arbitrary: st)
  case 0
  then show ?case by simp
next
  case (Suc n)
  let ?s = "st\<lparr>ticks := Suc (ticks st)\<rparr>"
  let ?v = "buttons pg (observed ?s)"
  let ?s' = "snd (tick pg prefs ?s)"
  from Suc.prems(1) have na: "answered ?s ''term_end'' \<noteq> Some True" by simp
  show ?case
  proof (cases "next_progress PROGRESS_BUTTONS ?v")
    case None
    from all have "2 \<le> card (set ?v \<inter> term_end_set)" by blast
    with None na have d: "decide ?v ?s = TermEnd" by (rule decide_TermEndI)
    then have "answered ?s' ''term_end'' = Some True" and c: "fst (tick pg prefs ?s) = True"
      by (rule tick_TermEnd_effect)+
    then have "term_end_events (main_loop pg prefs n ?s') = term_end_events ?s'"
      by (simp only: main_loop_answered_no_event)
    moreover have "term_end_events ?s' = term_end_events st + 1"
      using d by (simp add: tick_term_end_events)
    ultimately show ?thesis using c by (simp only: main_loop_Suc if_True)
  next
    case (Some np)
    then have d: "decide ?v ?s = Progress np" by (simp only: decide_Progress_iff)
    note eff = tick_Progress_effect [OF d, of prefs]
    from eff(2) na have a: "answered ?s' ''term_end'' \<noteq> Some True" by simp
    from Suc.prems(2) obtain j where j: "j < Suc n"
      and jn: "next_progress PROGRESS_BUTTONS (buttons pg (observed st + j)) = None"
      by blast
    have "j \<noteq> 0"
    proof
      assume "j = 0"
      with jn have "next_progress PROGRESS_BUTTONS (buttons pg (observed st)) = None" by simp
      with Some show False by simp
    qed
    then obtain j' where j': "j = Suc j'" by (cases j) simp_all
    from eff(3) have "observed ?s' + j' = observed st + j" by (simp add: j')
    with j jn j' have "\<exists>i < n. next_progress PROGRESS_BUTTONS (buttons pg (observed ?s' + i)) = None"
      by auto
    from Suc.IH [OF a this]
    have "term_end_events (main_loop pg prefs n ?s') = term_end_events ?s' + 1" .
    moreover have "term_end_events ?s' = term_end_events st"
      using d by (simp add: tick_term_end_events)
    ultimately show ?thesis using eff(1) by (simp only: main_loop_Suc if_True)
  qed
qed

text \<open>
  Claim C2, as amended. A flag that is true stays true, through every tick and through
  the whole loop, so each category goes from false to true at most once and is never
  reset. A run of the loop logs at most one term-end answer, and none once the flag is
  set. When every observation shows at least two distinct term-end labels, the run of 80
  ticks logs exactly one term-end answer provided that one of its first 80 observations
  shows no progress button: Rule P comes before Rule A.
\<close>

theorem answered_flags_idempotent:
  "(answered st k = Some True \<longrightarrow> answered (snd (tick pg prefs st)) k = Some True)
   \<and> (answered st k = Some True \<longrightarrow> answered (main_loop pg prefs n st) k = Some True)
   \<and> term_end_events (main_loop pg prefs n st) \<le> term_end_events st + 1
   \<and> (answered st ''term_end'' = Some True
        \<longrightarrow> term_end_events (main_loop pg prefs n st) = term_end_events st)
   \<and> ((\<forall>j. 2 \<le> card (set (buttons pg j) \<inter> term_end_set))
        \<and> (\<exists>j < 80. next_progress PROGRESS_BUTTONS (buttons pg j) = None)
        \<longrightarrow> term_end_events (main_loop pg prefs 80 (initial_state steps tr))
            = term_end_events (initial_state steps tr) + 1)"
proof -
  have a: "answered st k = Some True \<longrightarrow> answered (snd (tick pg prefs st)) k = Some True"
    by (simp add: tick_answered_mono)
  have b: "answered st k = Some True \<longrightarrow> answered (main_loop pg prefs n st) k = Some True"
    by (simp add: main_loop_answered_mono)
  have c: "term_end_events (main_loop pg prefs n st) \<le> term_end_events st + 1"
    by (rule main_loop_at_most_one_event)
  have d: "answered st ''term_end'' = Some True
        \<longrightarrow> term_end_events (main_loop pg prefs n st) = term_end_events st"
    by (simp add: main_loop_answered_no_event)
  have e: "(\<forall>j. 2 \<le> card (set (buttons pg j) \<inter> term_end_set))
        \<and> (\<exists>j < 80. next_progress PROGRESS_BUTTONS (buttons pg j) = None)
        \<longrightarrow> term_end_events (main_loop pg prefs 80 (initial_state steps tr))
            = term_end_events (initial_state steps tr) + 1"
  proof (intro impI, elim conjE)
    assume all: "\<forall>j. 2 \<le> card (set (buttons pg j) \<inter> term_end_set)"
      and ex: "\<exists>j < 80. next_progress PROGRESS_BUTTONS (buttons pg j) = None"
    have o: "observed (initial_state steps tr) = 0" by (simp add: observed_def initial_state_def)
    have na: "answered (initial_state steps tr) ''term_end'' \<noteq> Some True"
      by (simp add: initial_state_def)
    from ex have "\<exists>j < 80. next_progress PROGRESS_BUTTONS
        (buttons pg (observed (initial_state steps tr) + j)) = None"
      by (simp only: o add_0)
    with all na show "term_end_events (main_loop pg prefs 80 (initial_state steps tr))
            = term_end_events (initial_state steps tr) + 1"
      by (rule main_loop_exactly_one)
  qed
  from a b c d e show ?thesis by blast
qed

theorem answered_flags_idempotent_witness:
  "2 \<le> card (set (buttons term_end_page 0) \<inter> term_end_set)
   \<and> next_progress PROGRESS_BUTTONS (buttons term_end_page 0) = None
   \<and> term_end_events (main_loop term_end_page Map.empty 80 (initial_state [] [])) = 1
   \<and> answered (main_loop term_end_page Map.empty 80
        ((initial_state [] [])\<lparr>answered := [''term_end'' \<mapsto> True]\<rparr>)) ''term_end'' = Some True"
proof -
  have b: "buttons term_end_page j = [''6+ months away'', ''3-6 months away'']" for j
    by (simp add: term_end_page_def)
  have c: "2 \<le> card (set [''6+ months away'', ''3-6 months away''] \<inter> term_end_set)"
    by code_simp
  have p: "next_progress PROGRESS_BUTTONS [''6+ months away'', ''3-6 months away''] = None"
    by code_simp
  have all: "\<forall>j. 2 \<le> card (set (buttons term_end_page j) \<inter> term_end_set)"
    unfolding b using c by blast
  have "(0::nat) < 80 \<and> next_progress PROGRESS_BUTTONS (buttons term_end_page 0) = None"
    unfolding b using p by simp
  then have ex: "\<exists>j < 80. next_progress PROGRESS_BUTTONS (buttons term_end_page j) = None" ..
  have z: "term_end_events (initial_state [] []) = 0"
    by (simp add: term_end_events_def initial_state_def)
  let ?st = "(initial_state [] [])\<lparr>answered := [''term_end'' \<mapsto> True]\<rparr>"
  have f: "answered ?st ''term_end'' = Some True" by simp
  note t = answered_flags_idempotent [of ?st "''term_end''" term_end_page Map.empty 80 "[]" "[]"]
  from t all ex have "term_end_events (main_loop term_end_page Map.empty 80 (initial_state [] []))
            = term_end_events (initial_state [] []) + 1"
    by blast
  with z have one: "term_end_events (main_loop term_end_page Map.empty 80 (initial_state [] [])) = 1"
    by simp
  from t f have keep: "answered (main_loop term_end_page Map.empty 80 ?st) ''term_end'' = Some True"
    by blast
  from c p one keep show ?thesis unfolding b by blast
qed

text \<open>
  Against claim C2 as stated: a page that shows two term-end labels and \<open>Continue\<close> at
  every observation satisfies the condition of Rule A on every tick, and the run logs
  no term-end answer, since Rule P takes every tick.
\<close>

theorem progress_hides_term_end:
  "range (buttons continue_page) = {[''6+ months away'', ''3-6 months away'', ''Continue'']}
   \<and> 2 \<le> card (set [''6+ months away'', ''3-6 months away'', ''Continue''] \<inter> term_end_set)
   \<and> term_end_events (main_loop continue_page Map.empty 80 (initial_state [] [])) = 0"
proof -
  have b: "buttons continue_page j = [''6+ months away'', ''3-6 months away'', ''Continue'']" for j
    by (simp add: continue_page_def)
  have c: "2 \<le> card (set [''6+ months away'', ''3-6 months away'', ''Continue''] \<inter> term_end_set)"
    by code_simp
  have p: "next_progress PROGRESS_BUTTONS [''6+ months away'', ''3-6 months away'', ''Continue'']
      = Some ''Continue''"
    by code_simp
  have "\<forall>j. next_progress PROGRESS_BUTTONS (buttons continue_page j) \<noteq> None"
    unfolding b using p by simp
  then have "term_end_events (main_loop continue_page Map.empty 80 (initial_state [] []))
      = term_end_events (initial_state [] [])"
    by (rule main_loop_progress_only)
  then have z: "term_end_events (main_loop continue_page Map.empty 80 (initial_state [] [])) = 0"
    by (simp add: term_end_events_def initial_state_def)
  have f: "range (buttons continue_page) = {[''6+ months away'', ''3-6 months away'', ''Continue'']}"
    using b by auto
  from f c z show ?thesis by blast
qed

section \<open>The iteration cap\<close>

lemma scroll_reobserve_observed:
  "observed (snd (scroll_reobserve pg n v st)) \<le> observed st + n"
proof (induction n arbitrary: v st)
  case 0
  show ?case by simp
next
  case (Suc n)
  let ?s1 = "do_call Observe (do_call Scroll st)"
  have o: "observed ?s1 = Suc (observed st)" by (simp add: observed_def do_call_def)
  from Suc.IH [of "[]" ?s1] o show ?case
    by (simp add: observe_current_buttons_def observed_def do_call_def)
qed

lemma tick_observed: "observed (snd (tick pg prefs st)) \<le> observed st + 4"
proof (cases "decide (buttons pg (observed st)) st")
  case (Progress np)
  then show ?thesis by (simp add: tick_Progress observed_def answer_and_log_frame do_call_def)
next
  case TermEnd
  then show ?thesis
    by (simp add: tick_TermEnd Let_def observed_def answer_and_log_frame do_call_def)
next
  case Occupancy
  then show ?thesis
    by (simp add: tick_Occupancy Let_def observed_def answer_and_log_frame do_call_def)
next
  case CheckHere
  then show ?thesis by (simp add: tick_CheckHere observed_def answer_and_log_frame do_call_def)
next
  case (ExplicitClick lab rest)
  then show ?thesis
    by (simp add: tick_ExplicitClick observed_def answer_and_log_frame do_call_def)
next
  case (NextFreeText t rest)
  then show ?thesis
    by (simp add: tick_NextFreeText observed_def type_and_log_def log_event_def do_call_def)
next
  case Idle
  have "observed (do_call Observe st) = Suc (observed st)" by (simp add: observed_def do_call_def)
  with scroll_reobserve_observed [of pg 3 "buttons pg (observed st)" "do_call Observe st"]
  show ?thesis by (simp add: tick_Idle [OF Idle] log_event_def observed_def)
qed

lemma main_loop_observed: "observed (main_loop pg prefs n st) \<le> observed st + 4 * n"
proof (induction n arbitrary: st)
  case 0
  show ?case by simp
next
  case (Suc n)
  let ?s = "st\<lparr>ticks := Suc (ticks st)\<rparr>"
  let ?s' = "snd (tick pg prefs ?s)"
  from tick_observed [of pg prefs ?s] have t: "observed ?s' \<le> observed st + 4" by simp
  from Suc.IH [of ?s'] t show ?case by (simp add: main_loop_Suc del: main_loop.simps)
qed


lemma guarded_returns:
  "\<not> raises (length (calls st)) \<Longrightarrow> guarded raises c helper st = (Inr (fst (helper st)), snd (helper st))"
  by (simp add: guarded_def split: prod.splits)

lemma guarded_error:
  "fst (guarded raises c helper st) = Inl e \<Longrightarrow> e = HelperError c \<and> raises (length (calls st))"
  by (simp add: guarded_def split: prod.splits if_splits)

lemma answer_choice_exn_returns:
  assumes "\<forall>k. \<not> raises k"
  shows "answer_choice_exn raises pg label pc st
     = (Inr (fst (answer_choice pg label pc st)), snd (answer_choice pg label pc st))"
  using assms
  by (simp add: answer_choice_exn_def answer_choice_def type_and_log_exn_def click_and_log_exn_def
      guarded_returns split: prod.splits)

lemma scroll_reobserve_exn_returns:
  assumes "\<forall>k. \<not> raises k"
  shows "scroll_reobserve_exn raises pg n v st
     = (Inr (fst (scroll_reobserve pg n v st)), snd (scroll_reobserve pg n v st))"
proof (induction n arbitrary: v st)
  case 0
  show ?case by simp
next
  case (Suc n)
  show ?case
    using assms Suc [of "[]"]
    by (simp add: attempt_def observe_current_buttons_exn_def guarded_returns split: prod.splits)
qed

lemma answer_and_log_exn_returns:
  assumes "\<forall>k. \<not> raises k"
  shows "answer_and_log_exn raises pg label f st = (None, answer_and_log pg label f st)"
  by (simp add: answer_and_log_exn_def answer_and_log_def answer_choice_exn_returns [OF assms]
      split: prod.splits)

lemma tick_exn_returns:
  assumes "\<forall>k. \<not> raises k"
  shows "tick_exn raises pg prefs st = (Inr (fst (tick pg prefs st)), snd (tick pg prefs st))"
proof -
  have o: "observe_current_buttons_exn raises pg st
      = (Inr (fst (observe_current_buttons pg st)), snd (observe_current_buttons pg st))"
    using assms by (simp add: observe_current_buttons_exn_def guarded_returns)
  have t: "type_and_log_exn raises pg m s = (Inr (fst (type_and_log pg m s)), snd (type_and_log pg m s))"
    for m s
    using assms by (simp add: type_and_log_exn_def guarded_returns)
  show ?thesis
    unfolding tick_exn_def tick_def o
    by (simp add: answer_and_log_exn_returns [OF assms] scroll_reobserve_exn_returns [OF assms] t
        Let_def split: prod.splits decision.splits)
qed

lemma main_loop_exn_returns:
  assumes "\<forall>k. \<not> raises k"
  shows "main_loop_exn raises pg prefs n st = (None, main_loop pg prefs n st)"
proof (induction n arbitrary: st)
  case 0
  show ?case by simp
next
  case (Suc n)
  show ?case
    by (simp add: tick_exn_returns [OF assms] Suc split: prod.splits bool.splits)
qed

lemma attempt_all_returns:
  assumes "\<forall>k. \<not> raises k"
  shows "attempt_all raises cs st = (None, foldl (\<lambda>s c. do_call c s) st cs)"
  using assms by (induction cs arbitrary: st) (simp_all add: attempt_def)

lemma finish_run_exn_returns:
  assumes "\<forall>k. \<not> raises k"
  shows "finish_run_exn raises w st = (None, finish_run w st)"
  using assms
  by (simp add: finish_run_exn_def finish_run_def attempt_def attempt_all_returns [OF assms]
      Let_def log_event_def do_call_def split: prod.splits)

lemma run_scenario1_exn_returns:
  assumes "\<forall>k. \<not> raises k"
  shows "run_scenario1_exn raises rd p w = run_scenario1 rd p w"
  by (simp add: run_scenario1_exn_def run_scenario1_def main_loop_exn_returns [OF assms]
      finish_run_exn_returns [OF assms] Let_def split: sum.splits prod.splits option.splits)


lemma guarded_frame:
  assumes h: "\<And>x s'. helper st = (x, s') \<Longrightarrow> ticks s' = ticks st \<and> calls s' = calls st @ [c]"
  shows "ticks (snd (guarded raises c helper st)) = ticks st
     \<and> calls (snd (guarded raises c helper st)) = calls st @ [c]"
  using h by (cases "helper st") (auto simp: guarded_def do_call_def)

lemma type_and_log_exn_frame:
  "ticks (snd (type_and_log_exn raises pg m st)) = ticks st
   \<and> calls (snd (type_and_log_exn raises pg m st)) = calls st @ [Send m]"
  unfolding type_and_log_exn_def
  by (rule guarded_frame) (auto simp: type_and_log_def do_call_def)

lemma click_and_log_exn_frame:
  "ticks (snd (click_and_log_exn raises pg l st)) = ticks st
   \<and> calls (snd (click_and_log_exn raises pg l st)) = calls st @ [ClickText l]"
  unfolding click_and_log_exn_def
  by (rule guarded_frame) (auto simp: click_and_log_def do_call_def)

lemma observe_current_buttons_exn_frame:
  "ticks (snd (observe_current_buttons_exn raises pg st)) = ticks st
   \<and> calls (snd (observe_current_buttons_exn raises pg st)) = calls st @ [Observe]"
  unfolding observe_current_buttons_exn_def
  by (rule guarded_frame) (auto simp: observe_current_buttons_def do_call_def)

lemma answer_choice_exn_frame:
  "ticks (snd (answer_choice_exn raises pg label pc st)) = ticks st
   \<and> observed (snd (answer_choice_exn raises pg label pc st)) = observed st"
proof -
  have t: "ticks (snd (type_and_log_exn raises pg label s)) = ticks s
      \<and> observed (snd (type_and_log_exn raises pg label s)) = observed s" for s
    using type_and_log_exn_frame [of raises pg label s] by (simp add: observed_def)
  have c: "ticks (snd (click_and_log_exn raises pg label s)) = ticks s
      \<and> observed (snd (click_and_log_exn raises pg label s)) = observed s" for s
    using click_and_log_exn_frame [of raises pg label s] by (simp add: observed_def)
  show ?thesis
  proof (cases pc)
    case False
    obtain r1 s1 where a: "type_and_log_exn raises pg label st = (r1, s1)"
      by (cases "type_and_log_exn raises pg label st")
    obtain r2 s2 where b: "click_and_log_exn raises pg label s1 = (r2, s2)"
      by (cases "click_and_log_exn raises pg label s1")
    from t [of st] a have t1: "ticks s1 = ticks st \<and> observed s1 = observed st" by simp
    from c [of s1] b have t2: "ticks s2 = ticks s1 \<and> observed s2 = observed s1" by simp
    from False t1 t2 show ?thesis
      by (simp add: answer_choice_exn_def a b split: sum.splits)
  next
    case True
    obtain r1 s1 where a: "click_and_log_exn raises pg label st = (r1, s1)"
      by (cases "click_and_log_exn raises pg label st")
    obtain r2 s2 where b: "type_and_log_exn raises pg label s1 = (r2, s2)"
      by (cases "type_and_log_exn raises pg label s1")
    from c [of st] a have t1: "ticks s1 = ticks st \<and> observed s1 = observed st" by simp
    from t [of s1] b have t2: "ticks s2 = ticks s1 \<and> observed s2 = observed s1" by simp
    from True t1 t2 show ?thesis
      by (simp add: answer_choice_exn_def a b split: sum.splits)
  qed
qed

lemma log_event_frame:
  "observed (log_event r a t st) = observed st" "ticks (log_event r a t st) = ticks st"
  by (simp_all add: observed_def log_event_def)

lemma answer_and_log_exn_frame:
  "ticks (snd (answer_and_log_exn raises pg label f st)) = ticks st
   \<and> observed (snd (answer_and_log_exn raises pg label f st)) = observed st"
proof -
  obtain r s1 where a: "answer_choice_exn raises pg label False st = (r, s1)"
    by (cases "answer_choice_exn raises pg label False st")
  from answer_choice_exn_frame [of raises pg label False st] a
  have "ticks s1 = ticks st \<and> observed s1 = observed st" by simp
  then show ?thesis
    by (simp add: answer_and_log_exn_def a log_event_frame split: sum.splits)
qed

lemma scroll_reobserve_exn_frame:
  "ticks (snd (scroll_reobserve_exn raises pg n v st)) = ticks st
   \<and> observed (snd (scroll_reobserve_exn raises pg n v st)) \<le> observed st + n"
proof (induction n arbitrary: v st)
  case 0
  show ?case by simp
next
  case (Suc n)
  let ?s1 = "do_call Scroll st"
  obtain r s2 where o: "observe_current_buttons_exn raises pg ?s1 = (r, s2)"
    by (cases "observe_current_buttons_exn raises pg ?s1")
  from observe_current_buttons_exn_frame [of raises pg ?s1] o
  have s2: "ticks s2 = ticks st \<and> observed s2 = Suc (observed st)"
    by (simp add: observed_def do_call_def)
  have s1: "ticks ?s1 = ticks st \<and> observed ?s1 = observed st"
    by (simp add: observed_def do_call_def)
  from Suc [of "[]" s2] s1 s2 show ?case
    by (simp add: attempt_def o split: sum.splits)
qed


lemma tick_exn_frame:
  "ticks (snd (tick_exn raises pg prefs st)) = ticks st
   \<and> observed (snd (tick_exn raises pg prefs st)) \<le> observed st + 4"
proof -
  obtain r s0 where o: "observe_current_buttons_exn raises pg st = (r, s0)"
    by (cases "observe_current_buttons_exn raises pg st")
  from observe_current_buttons_exn_frame [of raises pg st] o
  have s0: "ticks s0 = ticks st \<and> observed s0 = Suc (observed st)"
    by (simp add: observed_def)
  show ?thesis
  proof (cases r)
    case (Inl e)
    with s0 show ?thesis by (simp add: tick_exn_def o)
  next
    case (Inr visible)
    have a: "ticks (snd (answer_and_log_exn raises pg l f s)) = ticks st
        \<and> observed (snd (answer_and_log_exn raises pg l f s)) \<le> observed st + 4"
      if "ticks s = ticks s0" and "observed s = observed s0" for l f s
      using answer_and_log_exn_frame [of raises pg l f s] that s0 by simp
    note a0 = a [OF refl refl]
    have p: "ticks (s0\<lparr>pending_steps := rest\<rparr>) = ticks s0"
      "observed (s0\<lparr>pending_steps := rest\<rparr>) = observed s0" for rest
      by (simp_all add: observed_def)
    note a1 = a [OF p]
    show ?thesis
    proof (cases "decide visible s0")
      case (Progress np)
      with Inr show ?thesis
        by (simp add: tick_exn_def o case_prod_unfold a0 split: option.splits)
    next
      case TermEnd
      with Inr show ?thesis
        by (simp add: tick_exn_def o case_prod_unfold Let_def a0 observed_def [of "_\<lparr>answered := _\<rparr>"]
            split: option.splits)
           (simp add: a0 [unfolded observed_def] observed_def)
    next
      case Occupancy
      with Inr show ?thesis
        by (simp add: tick_exn_def o case_prod_unfold Let_def a0 observed_def [of "_\<lparr>answered := _\<rparr>"]
            split: option.splits)
           (simp add: a0 [unfolded observed_def] observed_def)
    next
      case CheckHere
      with Inr show ?thesis
        by (simp add: tick_exn_def o case_prod_unfold a0 split: option.splits)
    next
      case (ExplicitClick lab rest)
      with Inr show ?thesis
        by (simp add: tick_exn_def o case_prod_unfold a1 split: option.splits)
    next
      case (NextFreeText t rest)
      from type_and_log_exn_frame [of raises pg t "s0\<lparr>pending_steps := rest\<rparr>"] s0
      have "ticks (snd (type_and_log_exn raises pg t (s0\<lparr>pending_steps := rest\<rparr>))) = ticks st
        \<and> observed (snd (type_and_log_exn raises pg t (s0\<lparr>pending_steps := rest\<rparr>)))
            = Suc (observed st)"
        by (simp add: observed_def)
      with NextFreeText Inr show ?thesis
        by (simp add: tick_exn_def o case_prod_unfold log_event_frame split: sum.splits)
    next
      case Idle
      from scroll_reobserve_exn_frame [of raises pg 3 visible s0] s0
      have "ticks (snd (scroll_reobserve_exn raises pg 3 visible s0)) = ticks st
        \<and> observed (snd (scroll_reobserve_exn raises pg 3 visible s0)) \<le> observed st + 4"
        by simp
      with Idle Inr show ?thesis
        by (simp add: tick_exn_def o case_prod_unfold log_event_frame split: sum.splits)
    qed
  qed
qed

lemma main_loop_exn_Suc:
  "main_loop_exn raises pg prefs (Suc n) st =
     (case fst (tick_exn raises pg prefs (st\<lparr>ticks := Suc (ticks st)\<rparr>)) of
        Inl e \<Rightarrow> (Some e, snd (tick_exn raises pg prefs (st\<lparr>ticks := Suc (ticks st)\<rparr>)))
      | Inr go_on \<Rightarrow>
          if go_on
          then main_loop_exn raises pg prefs n (snd (tick_exn raises pg prefs (st\<lparr>ticks := Suc (ticks st)\<rparr>)))
          else (None, snd (tick_exn raises pg prefs (st\<lparr>ticks := Suc (ticks st)\<rparr>))))"
  by (cases "tick_exn raises pg prefs (st\<lparr>ticks := Suc (ticks st)\<rparr>)")
     (simp split: sum.splits bool.splits)

lemma main_loop_exn_bounds:
  "ticks (snd (main_loop_exn raises pg prefs n st)) \<le> ticks st + n
   \<and> observed (snd (main_loop_exn raises pg prefs n st)) \<le> observed st + 4 * n"
proof (induction n arbitrary: st)
  case 0
  show ?case by simp
next
  case (Suc n)
  let ?s' = "snd (tick_exn raises pg prefs (st\<lparr>ticks := Suc (ticks st)\<rparr>))"
  from tick_exn_frame [of raises pg prefs "st\<lparr>ticks := Suc (ticks st)\<rparr>"]
  have t: "ticks ?s' = Suc (ticks st)" and o: "observed ?s' \<le> observed st + 4"
    by (simp_all add: observed_def)
  from Suc [of ?s'] t o show ?case
    by (simp add: main_loop_exn_Suc del: main_loop_exn.simps split: sum.splits)
qed

lemma answer_choice_exn_error:
  "fst (answer_choice_exn raises pg label pc st) = Inl e \<Longrightarrow> \<exists>c. e = HelperError c"
  by (auto simp: answer_choice_exn_def type_and_log_exn_def click_and_log_exn_def guarded_def
      split: prod.splits sum.splits if_splits)

lemma answer_and_log_exn_error:
  "fst (answer_and_log_exn raises pg label f st) = Some e \<Longrightarrow> \<exists>c. e = HelperError c"
  using answer_choice_exn_error [of raises pg label False st e]
  by (auto simp: answer_and_log_exn_def split: prod.splits sum.splits)

lemma scroll_reobserve_exn_error:
  "fst (scroll_reobserve_exn raises pg n v st) = Inl e \<Longrightarrow> \<exists>c. e = HelperError c"
proof (induction n arbitrary: v st)
  case 0
  then show ?case by simp
next
  case (Suc n)
  then show ?case
    by (auto simp: attempt_def observe_current_buttons_exn_def guarded_def
        split: prod.splits sum.splits if_splits option.splits)
qed

lemma tick_exn_error:
  assumes "fst (tick_exn raises pg prefs st) = Inl e"
  shows "\<exists>c. e = HelperError c"
proof -
  obtain r s0 where o: "observe_current_buttons_exn raises pg st = (r, s0)"
    by (cases "observe_current_buttons_exn raises pg st")
  show ?thesis
  proof (cases r)
    case (Inl e')
    with assms o have "e' = e" by (simp add: tick_exn_def)
    with Inl o guarded_error [of raises Observe "observe_current_buttons pg" st e]
    show ?thesis by (simp add: observe_current_buttons_exn_def)
  next
    case (Inr visible)
    note al = answer_and_log_exn_error [of raises pg _ _ _ e]
    show ?thesis
    proof (cases "decide visible s0")
      case (Progress np)
      with assms Inr o al show ?thesis
        by (auto simp: tick_exn_def case_prod_unfold split: option.splits)
    next
      case TermEnd
      with assms Inr o al show ?thesis
        by (auto simp: tick_exn_def case_prod_unfold Let_def split: option.splits)
    next
      case Occupancy
      with assms Inr o al show ?thesis
        by (auto simp: tick_exn_def case_prod_unfold Let_def split: option.splits)
    next
      case CheckHere
      with assms Inr o al show ?thesis
        by (auto simp: tick_exn_def case_prod_unfold split: option.splits)
    next
      case (ExplicitClick lab rest)
      with assms Inr o al show ?thesis
        by (auto simp: tick_exn_def case_prod_unfold split: option.splits)
    next
      case (NextFreeText t rest)
      with assms Inr o
        guarded_error [of raises "Send t" "type_and_log pg t" "s0\<lparr>pending_steps := rest\<rparr>" e]
      show ?thesis
        by (auto simp: tick_exn_def case_prod_unfold type_and_log_exn_def split: sum.splits)
    next
      case Idle
      with assms Inr o scroll_reobserve_exn_error [of raises pg 3 visible s0 e]
      show ?thesis
        by (auto simp: tick_exn_def case_prod_unfold split: sum.splits)
    qed
  qed
qed

lemma main_loop_exn_error:
  "fst (main_loop_exn raises pg prefs n st) = Some e \<Longrightarrow> (\<exists>c. e = HelperError c) \<and> (\<exists>k. raises k)"
proof -
  assume a: "fst (main_loop_exn raises pg prefs n st) = Some e"
  have k: "\<exists>k. raises k"
  proof (rule ccontr)
    assume "\<not> (\<exists>k. raises k)"
    then have "\<forall>k. \<not> raises k" by simp
    from main_loop_exn_returns [OF this, of pg prefs n st] a show False by simp
  qed
  from a have "\<exists>c. e = HelperError c"
  proof (induction n arbitrary: st)
    case 0
    then show ?case by simp
  next
    case (Suc n)
    let ?t = "tick_exn raises pg prefs (st\<lparr>ticks := Suc (ticks st)\<rparr>)"
    show ?case
    proof (cases "fst ?t")
      case (Inl e')
      with Suc.prems have "e' = e" by (simp add: main_loop_exn_Suc del: main_loop_exn.simps)
      with Inl tick_exn_error [of raises pg prefs "st\<lparr>ticks := Suc (ticks st)\<rparr>" e]
      show ?thesis by simp
    next
      case (Inr go_on)
      with Suc.prems Suc.IH [of "snd ?t"] show ?thesis
        by (simp add: main_loop_exn_Suc del: main_loop_exn.simps split: if_splits)
    qed
  qed
  with k show ?thesis by simp
qed


lemma open_app_ticks: "ticks (snd (open_app w st)) = ticks st"
  by (simp add: open_app_def Let_def consent_ticks log_event_def do_call_def)

lemma attempt_all_ticks: "ticks (snd (attempt_all raises cs st)) = ticks st"
  by (induction cs arbitrary: st) (simp_all add: attempt_def do_call_def)

lemma finish_run_exn_ticks: "ticks (snd (finish_run_exn raises w st)) = ticks st"
  by (simp add: finish_run_exn_def end_of_run_summary_eq attempt_def attempt_all_ticks
      log_event_def do_call_def)

lemma run_scenario1_exn_ticks: "ticks (snd (run_scenario1_exn raises rd p w)) \<le> 80"
proof (cases "build_steps_from_excel rd p")
  case (Inl e)
  then show ?thesis by (simp add: run_scenario1_exn_def initial_state_def)
next
  case (Inr x)
  obtain mc ctx where x: "x = (mc, ctx)" by (cases x)
  obtain oe st4 where o: "open_app w (initial_state mc ctx) = (oe, st4)"
    by (cases "open_app w (initial_state mc ctx)")
  from open_app_ticks [of w "initial_state mc ctx"] o have t4: "ticks st4 = 0"
    by (simp add: initial_state_def)
  let ?prefs = "choice_preferences ctx Map.empty"
  obtain le st5 where m: "main_loop_exn raises (ui w) ?prefs 80 st4 = (le, st5)"
    by (cases "main_loop_exn raises (ui w) ?prefs 80 st4")
  from main_loop_exn_bounds [of raises "ui w" ?prefs 80 st4] m t4 have t5: "ticks st5 \<le> 80"
    by simp
  from Inr x o m t4 t5 show ?thesis
    by (simp add: run_scenario1_exn_def Let_def finish_run_exn_ticks split: option.splits)
qed

text \<open>
  Claim C4. The loop begins at most 80 iterations and makes at most four observations in
  each, whatever the page returns, however long its script is and whichever helper calls
  raise; the loop functions are total, and the whole run stays within 80 iterations. The
  loop ends with an error only by the exception of a helper call that raises, never by
  the cap: when no helper call raises it returns normally, cap reached or not, and then a
  run whose transcript loads and whose \<open>launch\<close> and \<open>goto\<close> return ends without an
  error.
\<close>

theorem main_loop_bounded:
  "ticks (main_loop pg prefs 80 st) \<le> ticks st + 80
   \<and> observed (main_loop pg prefs 80 st) \<le> observed st + 320
   \<and> ticks (snd (main_loop_exn raises pg prefs 80 st)) \<le> ticks st + 80
   \<and> observed (snd (main_loop_exn raises pg prefs 80 st)) \<le> observed st + 320
   \<and> ticks (snd (run_scenario1_exn raises rd p w)) \<le> 80
   \<and> (\<forall>e. fst (main_loop_exn raises pg prefs 80 st) = Some e
          \<longrightarrow> (\<exists>c. e = HelperError c) \<and> (\<exists>k. raises k))
   \<and> ((\<forall>k. \<not> raises k)
          \<longrightarrow> main_loop_exn raises pg prefs 80 st = (None, main_loop pg prefs 80 st))
   \<and> ((\<exists>x. build_steps_from_excel rd p = Inr x) \<and> launch_ok w \<and> goto_ok w \<and> (\<forall>k. \<not> raises k)
          \<longrightarrow> fst (run_scenario1_exn raises rd p w) = None)"
proof -
  have a: "ticks (main_loop pg prefs 80 st) \<le> ticks st + 80" by (rule main_loop_ticks)
  have b: "observed (main_loop pg prefs 80 st) \<le> observed st + 320"
    using main_loop_observed [of pg prefs 80 st] by simp
  have c: "ticks (snd (main_loop_exn raises pg prefs 80 st)) \<le> ticks st + 80"
    using main_loop_exn_bounds [of raises pg prefs 80 st] by simp
  have d: "observed (snd (main_loop_exn raises pg prefs 80 st)) \<le> observed st + 320"
    using main_loop_exn_bounds [of raises pg prefs 80 st] by simp
  have e: "ticks (snd (run_scenario1_exn raises rd p w)) \<le> 80" by (rule run_scenario1_exn_ticks)
  have f: "\<forall>e. fst (main_loop_exn raises pg prefs 80 st) = Some e
          \<longrightarrow> (\<exists>c. e = HelperError c) \<and> (\<exists>k. raises k)"
    using main_loop_exn_error [of raises pg prefs 80 st] by blast
  have g: "(\<forall>k. \<not> raises k)
          \<longrightarrow> main_loop_exn raises pg prefs 80 st = (None, main_loop pg prefs 80 st)"
    using main_loop_exn_returns [of raises pg prefs 80 st] by blast
  have h: "(\<exists>x. build_steps_from_excel rd p = Inr x) \<and> launch_ok w \<and> goto_ok w \<and> (\<forall>k. \<not> raises k)
          \<longrightarrow> fst (run_scenario1_exn raises rd p w) = None"
  proof (intro impI, elim conjE exE)
    fix x assume "build_steps_from_excel rd p = Inr x" and l: "launch_ok w" and gk: "goto_ok w"
      and nr: "\<forall>k. \<not> raises k"
    then obtain mc ctx where bs: "build_steps_from_excel rd p = Inr (mc, ctx)" by (cases x) simp
    from run_scenario1_completes [OF bs l gk] run_scenario1_exn_returns [OF nr, of rd p w]
    show "fst (run_scenario1_exn raises rd p w) = None" by simp
  qed
  from a b c d e f g h show ?thesis by blast
qed

theorem main_loop_bounded_witness:
  "(\<exists>x. build_steps_from_excel scenario_readers scenario_csv = Inr x)
   \<and> launch_ok capped_world \<and> goto_ok capped_world
   \<and> fst (run_scenario1_exn (\<lambda>k. False) scenario_readers scenario_csv capped_world) = None
   \<and> ticks (snd (run_scenario1_exn (\<lambda>k. False) scenario_readers scenario_csv capped_world)) = 80"
proof -
  have x: "\<exists>x. build_steps_from_excel scenario_readers scenario_csv = Inr x"
    using scenario_build by blast
  have l: "launch_ok capped_world" and g: "goto_ok capped_world"
    by (simp_all add: capped_world_def)
  have nr: "\<forall>k. \<not> (\<lambda>k. False) k" by simp
  from main_loop_bounded [of _ _ _ "\<lambda>k. False" scenario_readers scenario_csv capped_world] x l g nr
  have n: "fst (run_scenario1_exn (\<lambda>k. False) scenario_readers scenario_csv capped_world) = None"
    by blast
  have u: "ui capped_world = continue_page" by (simp add: capped_world_def)
  have p: "next_progress PROGRESS_BUTTONS [''6+ months away'', ''3-6 months away'', ''Continue'']
      = Some ''Continue''"
    by code_simp
  have always: "\<forall>j. next_progress PROGRESS_BUTTONS (buttons continue_page j) \<noteq> None"
    by (simp add: continue_page_def p)
  note r = run_scenario1_completes [OF scenario_build l g]
  have "ticks (snd (run_scenario1 scenario_readers scenario_csv capped_world)) = 80"
    unfolding r u
    by (simp add: finish_run_frame main_loop_progress_ticks [OF always] open_app_ok [OF l g]
        initial_state_def)
  then have t: "ticks (snd (run_scenario1_exn (\<lambda>k. False) scenario_readers scenario_csv capped_world)) = 80"
    by (simp only: run_scenario1_exn_returns [OF nr])
  from x l g n t show ?thesis by blast
qed

text \<open>
  A run in which a helper raises: the call at position 10 is the \<open>type_and_log\<close> of Rule
  E, and its exception ends the run in the second iteration, with no event for the text,
  no report and no close.
\<close>

lemma helper_exception_ends_run:
  "fst (run_scenario1_exn (\<lambda>k. k = 10) scenario_readers scenario_csv scenario_world)
     = Some (HelperError (Send ''looking good''))"
  "calls (snd (run_scenario1_exn (\<lambda>k. k = 10) scenario_readers scenario_csv scenario_world))
     = [Launch, Goto, ClickText ''Accept all cookies'', ClickText ''Accept'', ClickText ''I agree'',
        ClickText ''Got it'', ClickText ''Close'', Observe, Send ''Live in it'', Observe,
        Send ''looking good'']"
  "ticks (snd (run_scenario1_exn (\<lambda>k. k = 10) scenario_readers scenario_csv scenario_world)) = 2"
  by code_simp+

section \<open>Releasing the browser and the model client\<close>

text \<open>
  Claim C9, as amended. When the transcript cannot be loaded the run ends before any
  resource exists. When \<open>launch\<close> and \<open>goto\<close> return, the run ends without an error,
  however the loop ended and whether or not the summary step raised: its last event is
  the summary text (the placeholder, the agent's text, or \<open>Summary failed: ...\<close> for a
  caught exception) and its last calls are the report, \<open>close\<close> and \<open>aclose\<close>. When
  \<open>launch\<close> or \<open>goto\<close> raises, the run ends with that error and its calls stop there.
\<close>

theorem resources_released_on_completion:
  "(\<forall>e. build_steps_from_excel rd p = Inl e
        \<longrightarrow> run_scenario1 rd p w = (Some (TranscriptError e), initial_state [] []))
   \<and> ((\<exists>x. build_steps_from_excel rd p = Inr x) \<and> launch_ok w \<and> goto_ok w
        \<longrightarrow> fst (run_scenario1 rd p w) = None
          \<and> (\<exists>cs. calls (snd (run_scenario1 rd p w)) = cs @ [RenderReport, Close, AClose])
          \<and> last (transcript (snd (run_scenario1 rd p w))) =
               \<lparr>role = ''assistant'', agent = ''TestingAgent'',
                content = (if skip_llm w then ''LLM summary skipped.''
                           else (case summary_result w of
                                   Inr msg \<Rightarrow> msg | Inl e \<Rightarrow> ''Summary failed: '' @ e))\<rparr>)
   \<and> ((\<exists>x. build_steps_from_excel rd p = Inr x) \<and> (\<not> launch_ok w \<or> \<not> goto_ok w)
        \<longrightarrow> fst (run_scenario1 rd p w)
              = Some (if \<not> launch_ok w then LaunchError else NavigationError)
          \<and> calls (snd (run_scenario1 rd p w))
              = (if \<not> launch_ok w then [Launch] else [Launch, Goto]))"
proof -
  have a: "\<forall>e. build_steps_from_excel rd p = Inl e
        \<longrightarrow> run_scenario1 rd p w = (Some (TranscriptError e), initial_state [] [])"
    by (simp add: run_scenario1_def)
  have b: "(\<exists>x. build_steps_from_excel rd p = Inr x) \<and> launch_ok w \<and> goto_ok w
        \<longrightarrow> fst (run_scenario1 rd p w) = None
          \<and> (\<exists>cs. calls (snd (run_scenario1 rd p w)) = cs @ [RenderReport, Close, AClose])
          \<and> last (transcript (snd (run_scenario1 rd p w))) =
               \<lparr>role = ''assistant'', agent = ''TestingAgent'',
                content = (if skip_llm w then ''LLM summary skipped.''
                           else (case summary_result w of
                                   Inr msg \<Rightarrow> msg | Inl e \<Rightarrow> ''Summary failed: '' @ e))\<rparr>"
  proof (intro impI, elim conjE exE)
    fix x assume "build_steps_from_excel rd p = Inr x" and l: "launch_ok w" and g: "goto_ok w"
    then obtain mc ctx where bs: "build_steps_from_excel rd p = Inr (mc, ctx)" by (cases x) simp
    note r = run_scenario1_completes [OF bs l g]
    let ?st5 = "main_loop (ui w) (choice_preferences ctx Map.empty) 80
        (snd (open_app w (initial_state mc ctx)))"
    from finish_run_frame(2) [of w ?st5]
    obtain cs where "calls (finish_run w ?st5) = calls ?st5 @ cs @ [RenderReport, Close, AClose]"
      by blast
    then have "calls (snd (run_scenario1 rd p w)) = (calls ?st5 @ cs) @ [RenderReport, Close, AClose]"
      by (simp add: r)
    then have c: "\<exists>cs. calls (snd (run_scenario1 rd p w)) = cs @ [RenderReport, Close, AClose]" ..
    have t: "last (transcript (snd (run_scenario1 rd p w))) =
               \<lparr>role = ''assistant'', agent = ''TestingAgent'',
                content = (if skip_llm w then ''LLM summary skipped.''
                           else (case summary_result w of
                                   Inr msg \<Rightarrow> msg | Inl e \<Rightarrow> ''Summary failed: '' @ e))\<rparr>"
      by (simp add: r finish_run_frame(3))
    have "fst (run_scenario1 rd p w) = None" by (simp add: r)
    with c t show "fst (run_scenario1 rd p w) = None
          \<and> (\<exists>cs. calls (snd (run_scenario1 rd p w)) = cs @ [RenderReport, Close, AClose])
          \<and> last (transcript (snd (run_scenario1 rd p w))) =
               \<lparr>role = ''assistant'', agent = ''TestingAgent'',
                content = (if skip_llm w then ''LLM summary skipped.''
                           else (case summary_result w of
                                   Inr msg \<Rightarrow> msg | Inl e \<Rightarrow> ''Summary failed: '' @ e))\<rparr>"
      by blast
  qed
  have c: "(\<exists>x. build_steps_from_excel rd p = Inr x) \<and> (\<not> launch_ok w \<or> \<not> goto_ok w)
        \<longrightarrow> fst (run_scenario1 rd p w)
              = Some (if \<not> launch_ok w then LaunchError else NavigationError)
          \<and> calls (snd (run_scenario1 rd p w))
              = (if \<not> launch_ok w then [Launch] else [Launch, Goto])"
  proof (intro impI, elim conjE exE)
    fix x assume "build_steps_from_excel rd p = Inr x" and f: "\<not> launch_ok w \<or> \<not> goto_ok w"
    then obtain mc ctx where bs: "build_steps_from_excel rd p = Inr (mc, ctx)" by (cases x) simp
    from run_scenario1_aborts [OF bs f]
    show "fst (run_scenario1 rd p w)
              = Some (if \<not> launch_ok w then LaunchError else NavigationError)
          \<and> calls (snd (run_scenario1 rd p w))
              = (if \<not> launch_ok w then [Launch] else [Launch, Goto])"
      by blast
  qed
  from a b c show ?thesis by blast
qed

theorem resources_released_on_completion_witness:
  "(\<exists>x. build_steps_from_excel scenario_readers scenario_csv = Inr x)
   \<and> launch_ok scenario_world \<and> goto_ok scenario_world
   \<and> summary_result scenario_world = Inl ''timeout'' \<and> \<not> skip_llm scenario_world
   \<and> fst (run_scenario1 scenario_readers scenario_csv scenario_world) = None
   \<and> (\<exists>cs. calls (snd (run_scenario1 scenario_readers scenario_csv scenario_world))
          = cs @ [RenderReport, Close, AClose])
   \<and> last (transcript (snd (run_scenario1 scenario_readers scenario_csv scenario_world)))
       = \<lparr>role = ''assistant'', agent = ''TestingAgent'', content = ''Summary failed: timeout''\<rparr>"
proof -
  have x: "\<exists>x. build_steps_from_excel scenario_readers scenario_csv = Inr x"
    using scenario_build by blast
  have l: "launch_ok scenario_world" and g: "goto_ok scenario_world"
    and s: "summary_result scenario_world = Inl ''timeout''" and k: "\<not> skip_llm scenario_world"
    by (simp_all add: scenario_world_def)
  from resources_released_on_completion [of scenario_readers scenario_csv scenario_world] x l g
  have n: "fst (run_scenario1 scenario_readers scenario_csv scenario_world) = None"
    and c: "\<exists>cs. calls (snd (run_scenario1 scenario_readers scenario_csv scenario_world))
          = cs @ [RenderReport, Close, AClose]"
    and t: "last (transcript (snd (run_scenario1 scenario_readers scenario_csv scenario_world))) =
               \<lparr>role = ''assistant'', agent = ''TestingAgent'',
                content = (if skip_llm scenario_world then ''LLM summary skipped.''
                           else (case summary_result scenario_world of
                                   Inr msg \<Rightarrow> msg | Inl e \<Rightarrow> ''Summary failed: '' @ e))\<rparr>"
    by blast+
  from t have t': "last (transcript (snd (run_scenario1 scenario_readers scenario_csv scenario_world)))
       = \<lparr>role = ''assistant'', agent = ''TestingAgent'', content = ''Summary failed: timeout''\<rparr>"
    by (simp add: s k)
  from x l g s k n c t' show ?thesis by blast
qed

text \<open>
  Against claim C9 as stated: when \<open>goto\<close> raises, after the browser controller and the
  model client exist and \<open>launch\<close> has returned, the run ends with the error and calls
  neither \<open>close\<close> nor \<open>aclose\<close>.
\<close>

theorem navigation_failure_skips_close:
  "build_steps_from_excel scenario_readers scenario_csv
     = Inr ([Click ''Live in it'', FreeText ''looking good''],
          [\<lparr>role = ''assistant'', agent = ''Compare'', content = ''Welcome''\<rparr>,
           \<lparr>role = ''user'', agent = ''Anant'', content = ''Live in it''\<rparr>,
           \<lparr>role = ''user'', agent = ''Anant'', content = ''looking good''\<rparr>])
   \<and> launch_ok offline_world \<and> \<not> goto_ok offline_world
   \<and> fst (run_scenario1 scenario_readers scenario_csv offline_world) = Some NavigationError
   \<and> calls (snd (run_scenario1 scenario_readers scenario_csv offline_world)) = [Launch, Goto]
   \<and> Close \<notin> set (calls (snd (run_scenario1 scenario_readers scenario_csv offline_world)))
   \<and> AClose \<notin> set (calls (snd (run_scenario1 scenario_readers scenario_csv offline_world)))"
proof -
  have l: "launch_ok offline_world" and g: "\<not> goto_ok offline_world"
    by (simp_all add: offline_world_def)
  then have f: "\<not> launch_ok offline_world \<or> \<not> goto_ok offline_world" by simp
  note r = run_scenario1_aborts [OF scenario_build f]
  from r(1) l have e: "fst (run_scenario1 scenario_readers scenario_csv offline_world)
      = Some NavigationError"
    by simp
  from r(2) l have c: "calls (snd (run_scenario1 scenario_readers scenario_csv offline_world))
      = [Launch, Goto]"
    by simp
  from c have nc: "Close \<notin> set (calls (snd (run_scenario1 scenario_readers scenario_csv offline_world)))"
    and na: "AClose \<notin> set (calls (snd (run_scenario1 scenario_readers scenario_csv offline_world)))"
    by simp_all
  from scenario_build l g e c nc na show ?thesis by blast
qed

end
